theory Spec2Isabelle
  imports Main
begin

section \<open>A Sudoku board and its backtracking solver\<close>

text \<open>
  The development embeds \<^verbatim>\<open>src/solver.py\<close>: the class \<^verbatim>\<open>Board\<close> and the recursive
  function \<^verbatim>\<open>solve\<close>. A board holds a list of row lists and is mutated in place, so
  the row lists are objects in a store: two rows of a board may be one and the same list
  object (as in \<^verbatim>\<open>Board([[0] * 9] * 9)\<close>, which the constructor accepts), and a write
  through one of them shows in the other. An operation that writes returns the new
  state of the object. Exceptions are values of the type \<open>error\<close> on the left of a sum.
\<close>

subsection \<open>Python list indexing\<close>

datatype error = AssertionError | IndexError

text \<open>
  \<^verbatim>\<open>xs[i]\<close>: an index in \<open>[0, len)\<close> addresses that position, an index in
  \<open>[-len, 0)\<close> counts from the end, anything else raises \<^verbatim>\<open>IndexError\<close>.
\<close>

definition index_of :: "'a list \<Rightarrow> int \<Rightarrow> error + nat" where
  "index_of xs i =
     (if 0 \<le> i \<and> i < int (length xs) then Inr (nat i)
      else if - int (length xs) \<le> i \<and> i < 0 then Inr (nat (i + int (length xs)))
      else Inl IndexError)"

definition getitem :: "'a list \<Rightarrow> int \<Rightarrow> error + 'a" where
  "getitem xs i = (case index_of xs i of Inl e \<Rightarrow> Inl e | Inr k \<Rightarrow> Inr (xs ! k))"

definition setitem :: "'a list \<Rightarrow> int \<Rightarrow> 'a \<Rightarrow> error + 'a list" where
  "setitem xs i v = (case index_of xs i of Inl e \<Rightarrow> Inl e | Inr k \<Rightarrow> Inr (xs[k := v]))"

subsection \<open>The board\<close>

text \<open>
  A grid of values, and the \<^verbatim>\<open>Board\<close> object: \<^verbatim>\<open>self._board\<close> is a list of
  references to row lists, and the store gives the elements of each list object. No
  method replaces a row or changes the number of rows, so the outer list is a value; the
  row lists are written by \<^verbatim>\<open>set_value\<close>.
\<close>

type_synonym board = "int list list"

type_synonym addr = nat

record Board =
  row_refs :: "addr list"
  heap :: "addr \<Rightarrow> int list"

text \<open>The grid that reading \<^verbatim>\<open>self._board\<close> row by row gives.\<close>

definition grid_of :: "Board \<Rightarrow> board" where
  "grid_of s = map (heap s) (row_refs s)"

text \<open>
  \<^verbatim>\<open>Board.__init__\<close>: three assertions (nine rows, nine columns in each row, every
  value between 0 and 9), then the argument is stored as it is, shared rows included.
\<close>

definition Board_init :: "Board \<Rightarrow> error + Board" where
  "Board_init s =
     (if length (grid_of s) \<noteq> 9 then Inl AssertionError
      else if \<not> list_all (\<lambda>row. length row = 9) (grid_of s) then Inl AssertionError
      else if \<not> list_all (\<lambda>v. 0 \<le> v \<and> v \<le> 9) (concat (grid_of s)) then Inl AssertionError
      else Inr s)"

text \<open>
  The shape the grid of every \<^verbatim>\<open>Board\<close> object has: the constructor asserts it and
  \<^verbatim>\<open>set_value\<close>, the only writer, replaces one element of one row list. The derived
  views below (\<open>get_columns\<close>, \<open>get_squares\<close>) index the grid with \<open>!\<close> under this
  shape.
\<close>

definition well_shaped :: "board \<Rightarrow> bool" where
  "well_shaped b = (length b = 9 \<and> list_all (\<lambda>row. length row = 9) b)"

text \<open>
  \<^verbatim>\<open>set_value\<close> is \<^verbatim>\<open>self._board[row][column] = value\<close>: the row object is fetched
  first, then the element of that list object is replaced.
\<close>

definition set_value :: "Board \<Rightarrow> int \<Rightarrow> int \<Rightarrow> int \<Rightarrow> error + Board" where
  "set_value s row column v =
     (case getitem (row_refs s) row of
        Inl e \<Rightarrow> Inl e
      | Inr a \<Rightarrow> (case setitem (heap s a) column v of
                   Inl e \<Rightarrow> Inl e
                 | Inr new_row \<Rightarrow> Inr (s\<lparr>heap := (heap s)(a := new_row)\<rparr>)))"

definition get_value :: "Board \<Rightarrow> int \<Rightarrow> int \<Rightarrow> error + int" where
  "get_value s row column =
     (case getitem (row_refs s) row of Inl e \<Rightarrow> Inl e | Inr a \<Rightarrow> getitem (heap s a) column)"

subsection \<open>Validity\<close>

text \<open>
  The validity checks compute from the values they read; they are given here as functions
  of the grid read (\<open>grid_of\<close>). The same methods as operations on the object, read by
  read, follow further down.
\<close>

text \<open>\<^verbatim>\<open>_is_valid\<close>: \<^verbatim>\<open>len(set(non_zero_values)) == len(non_zero_values)\<close>.\<close>

definition is_valid_values :: "int list \<Rightarrow> bool" where
  "is_valid_values vs =
     (let non_zero_values = filter (\<lambda>v. v \<noteq> 0) vs
      in card (set non_zero_values) = length non_zero_values)"

definition get_columns :: "board \<Rightarrow> int list list" where
  "get_columns b = map (\<lambda>i. map (\<lambda>row. row ! i) b) [0..<9]"

definition get_squares :: "board \<Rightarrow> int list list" where
  "get_squares b =
     [[b ! (i + k) ! (j + l). k \<leftarrow> [0..<3], l \<leftarrow> [0..<3]]. i \<leftarrow> [0, 3, 6], j \<leftarrow> [0, 3, 6]]"

definition is_valid_rows :: "board \<Rightarrow> bool" where
  "is_valid_rows b = list_all is_valid_values b"

definition is_valid_columns :: "board \<Rightarrow> bool" where
  "is_valid_columns b = list_all is_valid_values (get_columns b)"

definition is_valid_squares :: "board \<Rightarrow> bool" where
  "is_valid_squares b = list_all is_valid_values (get_squares b)"

definition is_valid :: "board \<Rightarrow> bool" where
  "is_valid b = (is_valid_rows b \<and> is_valid_columns b \<and> is_valid_squares b)"

definition is_finished :: "board \<Rightarrow> bool" where
  "is_finished b = (list_all (\<lambda>v. v \<noteq> 0) (concat b) \<and> is_valid b)"

subsection \<open>Candidate values of a cell\<close>

text \<open>
  The probing loop of \<^verbatim>\<open>valid_values\<close>: each value of \<^verbatim>\<open>range(1, 10)\<close> is written
  into the cell and kept when the whole board is valid. The accumulator is the list
  built by \<^verbatim>\<open>append\<close>.
\<close>

fun probe :: "Board \<Rightarrow> int \<Rightarrow> int \<Rightarrow> int list \<Rightarrow> int list \<Rightarrow> error + (int list \<times> Board)" where
  "probe s row column acc [] = Inr (acc, s)"
| "probe s row column acc (v # vs) =
     (case set_value s row column v of
        Inl e \<Rightarrow> Inl e
      | Inr s' \<Rightarrow> probe s' row column (if is_valid (grid_of s') then acc @ [v] else acc) vs)"

definition valid_values :: "Board \<Rightarrow> int \<Rightarrow> int \<Rightarrow> error + (int list \<times> Board)" where
  "valid_values s row column =
     (case get_value s row column of
        Inl e \<Rightarrow> Inl e
      | Inr original_value \<Rightarrow>
          (case probe s row column [] [1..9] of
             Inl e \<Rightarrow> Inl e
           | Inr (vals, s') \<Rightarrow>
               (case set_value s' row column original_value of
                  Inl e \<Rightarrow> Inl e
                | Inr s'' \<Rightarrow> Inr (vals, s''))))"

subsection \<open>The solver\<close>

text \<open>
  A run of \<^verbatim>\<open>solve\<close> ends in an exception (\<open>Inl\<close>) or returns (\<open>Inr\<close>) with the
  board as the run left it; the flag is \<open>True\<close> when the call returned the board and
  \<open>False\<close> when it returned \<^verbatim>\<open>None\<close>. The recursion of the source is not structural,
  so \<open>solve\<close> takes the number of nested calls it may make; \<open>None\<close> says that this
  depth was not enough.
\<close>

type_synonym run = "(error + bool \<times> Board) option"

text \<open>
  The loop over the candidates of the cell found: write, recurse, return on success,
  reset the cell to 0 otherwise. After the last candidate the function returns
  \<^verbatim>\<open>None\<close>.
\<close>

fun try_values :: "(Board \<Rightarrow> run) \<Rightarrow> Board \<Rightarrow> nat \<Rightarrow> nat \<Rightarrow> int list \<Rightarrow> run" where
  "try_values rec s row column [] = Some (Inr (False, s))"
| "try_values rec s row column (v # vs) =
     (case set_value s (int row) (int column) v of
        Inl e \<Rightarrow> Some (Inl e)
      | Inr s1 \<Rightarrow>
          (case rec s1 of
             None \<Rightarrow> None
           | Some (Inl e) \<Rightarrow> Some (Inl e)
           | Some (Inr (ok, s2)) \<Rightarrow>
               if ok then Some (Inr (True, s2))
               else (case set_value s2 (int row) (int column) 0 of
                       Inl e \<Rightarrow> Some (Inl e)
                     | Inr s3 \<Rightarrow> try_values rec s3 row column vs)))"

text \<open>
  The two nested \<^verbatim>\<open>for\<close> loops over \<^verbatim>\<open>range(9)\<close>, as one loop over the cells in
  row-major order. The first cell holding 0 decides the call; when no cell holds 0 the
  loops end and the function returns \<^verbatim>\<open>None\<close>.
\<close>

definition cells :: "(nat \<times> nat) list" where
  "cells = [(row, column). row \<leftarrow> [0..<9], column \<leftarrow> [0..<9]]"

fun scan :: "(Board \<Rightarrow> run) \<Rightarrow> Board \<Rightarrow> (nat \<times> nat) list \<Rightarrow> run" where
  "scan rec s [] = Some (Inr (False, s))"
| "scan rec s ((row, column) # rest) =
     (case get_value s (int row) (int column) of
        Inl e \<Rightarrow> Some (Inl e)
      | Inr x \<Rightarrow>
          if x = 0 then
            (case valid_values s (int row) (int column) of
               Inl e \<Rightarrow> Some (Inl e)
             | Inr (vals, s1) \<Rightarrow> try_values rec s1 row column vals)
          else scan rec s rest)"

primrec solve :: "nat \<Rightarrow> Board \<Rightarrow> run" where
  "solve 0 s = None"
| "solve (Suc n) s =
     (if is_finished (grid_of s) then Some (Inr (True, s)) else scan (solve n) s cells)"

subsection \<open>Rendering\<close>

text \<open>\<^verbatim>\<open>str\<close> of an integer: decimal digits, with a minus sign below zero.\<close>

fun str_nat :: "nat \<Rightarrow> string" where
  "str_nat n =
     (if n < 10 then [''0123456789'' ! n]
      else str_nat (n div 10) @ [''0123456789'' ! (n mod 10)])"

declare str_nat.simps [simp del]

definition str_int :: "int \<Rightarrow> string" where
  "str_int i = (if i < 0 then CHR ''-'' # str_nat (nat (- i)) else str_nat (nat i))"

text \<open>\<^verbatim>\<open>sep.join(parts)\<close>.\<close>

fun join :: "string \<Rightarrow> string list \<Rightarrow> string" where
  "join sep [] = []"
| "join sep [x] = x"
| "join sep (x # y # ys) = x @ sep @ join sep (y # ys)"

definition formatted_row :: "int list \<Rightarrow> string" where
  "formatted_row row =
     join '' | ''
       (map (\<lambda>j. join '' '' (map (\<lambda>v. if v \<noteq> 0 then str_int v else ''.'')
                                  (take 3 (drop j row))))
            [0, 3, 6])"

text \<open>The loop over \<^verbatim>\<open>enumerate(self._board)\<close>, building the list \<^verbatim>\<open>rows\<close>.\<close>

fun str_rows :: "nat \<Rightarrow> board \<Rightarrow> string list" where
  "str_rows i [] = []"
| "str_rows i (row # rest) =
     (if i mod 3 = 0 \<and> i \<noteq> 0 then [replicate 21 CHR ''-''] else [])
     @ [formatted_row row] @ str_rows (Suc i) rest"

definition str_Board :: "board \<Rightarrow> string" where
  "str_Board b = join [CHR 0x0A] (str_rows 0 b)"

subsection \<open>The queries as operations on the object\<close>

text \<open>
  \<^verbatim>\<open>__str__\<close>, \<^verbatim>\<open>is_valid\<close> and \<^verbatim>\<open>is_finished\<close> are methods of the mutable
  object. Here they are operations on its state, read by read: \<open>read_rows\<close> is
  \<^verbatim>\<open>self._board\<close>, \<open>read_list\<close> gives the elements of a list object, \<open>each\<close> is a
  comprehension or a \<^verbatim>\<open>for\<close> loop collecting results, and \<open>all_of\<close> is \<^verbatim>\<open>all\<close>
  over a generator, which stops at the first false element. The lists that the
  comprehensions of \<^verbatim>\<open>_get_columns\<close> and \<^verbatim>\<open>_get_squares\<close> build are values.
\<close>

type_synonym 'a reading = "Board \<Rightarrow> 'a \<times> Board"

definition read_rows :: "addr list reading" where
  "read_rows s = (row_refs s, s)"

definition read_list :: "addr \<Rightarrow> int list reading" where
  "read_list a s = (heap s a, s)"

fun each :: "('a \<Rightarrow> 'b reading) \<Rightarrow> 'a list \<Rightarrow> 'b list reading" where
  "each f [] s = ([], s)"
| "each f (x # xs) s =
     (case f x s of (y, s1) \<Rightarrow> (case each f xs s1 of (ys, s2) \<Rightarrow> (y # ys, s2)))"

fun all_of :: "('a \<Rightarrow> bool reading) \<Rightarrow> 'a list \<Rightarrow> bool reading" where
  "all_of f [] s = (True, s)"
| "all_of f (x # xs) s =
     (case f x s of (ok, s1) \<Rightarrow> if ok then all_of f xs s1 else (False, s1))"

text \<open>\<^verbatim>\<open>self._board[r][c]\<close>.\<close>

definition read_cell :: "nat \<Rightarrow> nat \<Rightarrow> int reading" where
  "read_cell r c s =
     (case read_rows s of (refs, s1) \<Rightarrow>
        (case read_list (refs ! r) s1 of (row, s2) \<Rightarrow> (row ! c, s2)))"

text \<open>\<^verbatim>\<open>self._is_valid(row)\<close> for a row object of the board.\<close>

definition is_valid_values_call :: "addr \<Rightarrow> bool reading" where
  "is_valid_values_call a s =
     (case read_list a s of (values, s1) \<Rightarrow> (is_valid_values values, s1))"

definition is_valid_rows_call :: "bool reading" where
  "is_valid_rows_call s =
     (case read_rows s of (refs, s1) \<Rightarrow> all_of is_valid_values_call refs s1)"

definition get_columns_call :: "int list list reading" where
  "get_columns_call s =
     each (\<lambda>i s. case read_rows s of (refs, s1) \<Rightarrow>
                    each (\<lambda>a s. case read_list a s of (row, s2) \<Rightarrow> (row ! i, s2)) refs s1)
          [0..<9] s"

definition is_valid_columns_call :: "bool reading" where
  "is_valid_columns_call s =
     (case get_columns_call s of (columns, s1) \<Rightarrow> (list_all is_valid_values columns, s1))"

definition get_squares_call :: "int list list reading" where
  "get_squares_call s =
     each (\<lambda>(i, j). each (\<lambda>(k, l). read_cell (i + k) (j + l))
                          [(k, l). k \<leftarrow> [0..<3], l \<leftarrow> [0..<3]])
          [(i, j). i \<leftarrow> [0, 3, 6], j \<leftarrow> [0, 3, 6]] s"

definition is_valid_squares_call :: "bool reading" where
  "is_valid_squares_call s =
     (case get_squares_call s of (squares, s1) \<Rightarrow> (list_all is_valid_values squares, s1))"

text \<open>The \<^verbatim>\<open>and\<close> of \<^verbatim>\<open>is_valid\<close> evaluates its right operand only when the left holds.\<close>

definition is_valid_call :: "bool reading" where
  "is_valid_call s =
     (case is_valid_rows_call s of (rows_ok, s1) \<Rightarrow>
        if rows_ok then
          (case is_valid_columns_call s1 of (columns_ok, s2) \<Rightarrow>
             if columns_ok then is_valid_squares_call s2 else (False, s2))
        else (False, s1))"

definition is_finished_call :: "bool reading" where
  "is_finished_call s =
     (case read_rows s of (refs, s1) \<Rightarrow>
        (case all_of (\<lambda>a s. case read_list a s of (row, s2) \<Rightarrow> (list_all (\<lambda>v. v \<noteq> 0) row, s2))
                     refs s1 of
           (filled, s3) \<Rightarrow> if filled then is_valid_call s3 else (False, s3)))"

definition str_Board_call :: "string reading" where
  "str_Board_call s =
     (case read_rows s of (refs, s1) \<Rightarrow>
        (case each read_list refs s1 of (grid, s2) \<Rightarrow> (str_Board grid, s2)))"

text \<open>A sequence of queries on one object, each working on the state the last one left.\<close>

datatype query = Is_valid | Is_finished

fun run_query :: "query \<Rightarrow> bool reading" where
  "run_query Is_valid s = is_valid_call s"
| "run_query Is_finished s = is_finished_call s"

fun run_queries :: "query list \<Rightarrow> bool list reading" where
  "run_queries [] s = ([], s)"
| "run_queries (q # qs) s =
     (case run_query q s of
        (answer, s1) \<Rightarrow> (case run_queries qs s1 of (answers, s2) \<Rightarrow> (answer # answers, s2)))"

subsection \<open>Board objects from grids\<close>

text \<open>
  The object that a grid literal builds: one list object for each row. And the object of
  \<^verbatim>\<open>[[0] * 9] * 9\<close>: nine references to one list of nine zeros.
\<close>

definition literal :: "board \<Rightarrow> Board" where
  "literal g = \<lparr>row_refs = [0..<length g], heap = (\<lambda>a. if a < length g then g ! a else [])\<rparr>"

definition shared_zeros :: Board where
  "shared_zeros = \<lparr>row_refs = replicate 9 0, heap = (\<lambda>a. replicate 9 0)\<rparr>"

text \<open>The puzzle of \<^verbatim>\<open>main\<close>.\<close>

definition main_board :: board where
  "main_board =
    [[0, 0, 7, 0, 8, 0, 4, 0, 2],
     [0, 0, 9, 0, 5, 0, 0, 0, 0],
     [0, 8, 0, 0, 7, 4, 5, 0, 9],
     [0, 0, 0, 0, 0, 0, 0, 6, 0],
     [0, 0, 1, 0, 0, 5, 0, 2, 0],
     [4, 9, 0, 8, 0, 7, 0, 5, 0],
     [7, 3, 4, 5, 1, 6, 2, 9, 8],
     [0, 0, 6, 0, 2, 0, 0, 4, 0],
     [0, 0, 0, 0, 0, 0, 0, 0, 0]]"


section \<open>Notions used to state the properties\<close>

text \<open>
  The value of a cell given by its coordinates, and the object after the element \<open>c\<close>
  of the row object of row \<open>r\<close> is replaced by \<open>v\<close>.
\<close>

definition cell :: "board \<Rightarrow> nat \<times> nat \<Rightarrow> int" where
  "cell b p = b ! fst p ! snd p"

definition on_board :: "nat \<times> nat \<Rightarrow> bool" where
  "on_board p = (fst p < 9 \<and> snd p < 9)"

definition assign :: "Board \<Rightarrow> nat \<Rightarrow> nat \<Rightarrow> int \<Rightarrow> Board" where
  "assign s r c v = s\<lparr>heap := (heap s)(row_refs s ! r := (heap s (row_refs s ! r))[c := v])\<rparr>"


text \<open>
  The 27 groups of the specification, as lists of coordinates: nine rows, nine columns
  and the nine 3x3 squares whose corners lie at multiples of 3. A group passes when no
  two different cells of it hold the same non-zero value.
\<close>

definition row_group :: "nat \<Rightarrow> (nat \<times> nat) list" where
  "row_group r = map (\<lambda>c. (r, c)) [0..<9]"

definition column_group :: "nat \<Rightarrow> (nat \<times> nat) list" where
  "column_group i = map (\<lambda>r. (r, i)) [0..<9]"

definition square_group :: "nat \<Rightarrow> nat \<Rightarrow> (nat \<times> nat) list" where
  "square_group i j = [(i + k, j + l). k \<leftarrow> [0..<3], l \<leftarrow> [0..<3]]"

definition square_groups :: "(nat \<times> nat) list list" where
  "square_groups = [square_group i j. i \<leftarrow> [0, 3, 6], j \<leftarrow> [0, 3, 6]]"

definition groups :: "(nat \<times> nat) list list" where
  "groups = map row_group [0..<9] @ map column_group [0..<9] @ square_groups"

definition group_ok :: "board \<Rightarrow> (nat \<times> nat) list \<Rightarrow> bool" where
  "group_ok b g = (\<forall>p\<in>set g. \<forall>q\<in>set g. p \<noteq> q \<and> cell b p \<noteq> 0 \<longrightarrow> cell b p \<noteq> cell b q)"

text \<open>Two cells share a row, a column or a 3x3 square.\<close>

definition same_group :: "nat \<times> nat \<Rightarrow> nat \<times> nat \<Rightarrow> bool" where
  "same_group p q =
     (fst p = fst q \<or> snd p = snd q \<or>
      (fst p div 3 = fst q div 3 \<and> snd p div 3 = snd q div 3))"

text \<open>Two calls of \<^verbatim>\<open>valid_values\<close> on the same cell, one after the other.\<close>

definition valid_values_twice :: "Board \<Rightarrow> int \<Rightarrow> int \<Rightarrow> error + (int list \<times> int list \<times> Board)" where
  "valid_values_twice s row column =
     (case valid_values s row column of
        Inl e \<Rightarrow> Inl e
      | Inr (first, s1) \<Rightarrow>
          (case valid_values s1 row column of
             Inl e \<Rightarrow> Inl e
           | Inr (second, s2) \<Rightarrow> Inr (first, second, s2)))"

text \<open>
  Placing the value \<open>v\<close> at \<open>(r, c)\<close> creates a duplicate when another cell of the row,
  the column or the 3x3 square of \<open>(r, c)\<close> already holds \<open>v\<close>.
\<close>

definition creates_duplicate :: "board \<Rightarrow> nat \<Rightarrow> nat \<Rightarrow> int \<Rightarrow> bool" where
  "creates_duplicate b r c v =
     list_ex (\<lambda>q. q \<noteq> (r, c) \<and> same_group (r, c) q \<and> cell b q = v) cells"


text \<open>
  The cells holding 0, in the order of the scan. A grid keeps the clues of another when
  every non-zero cell of the first has the same value in the second, and it fills the
  other with digits when every cell that is 0 in the first holds a digit of \<open>1..9\<close> in
  the second. A completion of a puzzle is a finished grid that does both. Last, what a
  returned run of \<open>solve\<close> guarantees.
\<close>

definition empty_cells :: "board \<Rightarrow> (nat \<times> nat) list" where
  "empty_cells b = filter (\<lambda>p. cell b p = 0) cells"

definition keeps_clues :: "board \<Rightarrow> board \<Rightarrow> bool" where
  "keeps_clues b b' = list_all (\<lambda>p. cell b p \<noteq> 0 \<longrightarrow> cell b' p = cell b p) cells"

definition fills_digits :: "board \<Rightarrow> board \<Rightarrow> bool" where
  "fills_digits b b' =
     list_all (\<lambda>p. cell b p = 0 \<longrightarrow> 1 \<le> cell b' p \<and> cell b' p \<le> 9) cells"

definition completion :: "board \<Rightarrow> board \<Rightarrow> bool" where
  "completion b b' =
     (well_shaped b' \<and> is_finished b' \<and> keeps_clues b b' \<and> fills_digits b b')"

definition sound_run :: "Board \<Rightarrow> error + bool \<times> Board \<Rightarrow> bool" where
  "sound_run s res =
     (case res of
        Inl e \<Rightarrow> False
      | Inr (ok, s') \<Rightarrow>
          well_shaped (grid_of s') \<and>
          (if ok then completion (grid_of s) (grid_of s') else s' = s))"

text \<open>What a run shows of the board it left: the flag and the grid.\<close>

definition outcome :: "run \<Rightarrow> (error + bool \<times> board) option" where
  "outcome r = map_option (map_sum id (\<lambda>(ok, s). (ok, grid_of s))) r"

text \<open>The answers of the queries as functions of the grid.\<close>

fun answer :: "query \<Rightarrow> board \<Rightarrow> bool" where
  "answer Is_valid b = is_valid b"
| "answer Is_finished b = is_finished b"

text \<open>Grids used as concrete inputs.\<close>

definition two_fives :: board where
  "two_fives = (replicate 8 (replicate 9 0)) @ [[0, 0, 0, 0, 0, 0, 0, 5, 5]]"

definition main_solved :: board where
  "main_solved =
    [[1, 5, 7, 6, 8, 9, 4, 3, 2], [2, 4, 9, 3, 5, 1, 7, 8, 6],
     [6, 8, 3, 2, 7, 4, 5, 1, 9], [3, 7, 5, 1, 9, 2, 8, 6, 4],
     [8, 6, 1, 4, 3, 5, 9, 2, 7], [4, 9, 2, 8, 6, 7, 1, 5, 3],
     [7, 3, 4, 5, 1, 6, 2, 9, 8], [9, 1, 6, 7, 2, 8, 3, 4, 5],
     [5, 2, 8, 9, 4, 3, 6, 7, 1]]"

definition nearly_solved :: board where
  "nearly_solved =
    [[0, 5, 7, 6, 8, 9, 4, 3, 2], [2, 4, 9, 3, 5, 1, 7, 8, 6],
     [6, 8, 3, 2, 7, 4, 5, 1, 9], [3, 7, 5, 1, 9, 2, 8, 6, 4],
     [8, 6, 1, 4, 0, 5, 9, 2, 7], [4, 9, 2, 8, 6, 7, 1, 5, 3],
     [7, 3, 4, 5, 1, 6, 2, 9, 8], [9, 1, 6, 7, 2, 8, 3, 4, 5],
     [5, 2, 8, 9, 4, 3, 6, 7, 0]]"

definition dead_end :: board where
  "dead_end =
    [[0, 2, 3, 4, 5, 6, 7, 8, 0],
     [0, 0, 0, 0, 0, 0, 0, 0, 0],
     [0, 0, 0, 0, 0, 0, 0, 0, 0],
     [0, 0, 0, 0, 0, 0, 0, 0, 0],
     [0, 0, 0, 0, 0, 0, 0, 0, 9],
     [0, 0, 0, 0, 0, 0, 0, 0, 1],
     [0, 0, 0, 0, 0, 0, 0, 0, 0],
     [0, 0, 0, 0, 0, 0, 0, 0, 0],
     [0, 0, 0, 0, 0, 0, 0, 0, 0]]"

definition column_clash :: board where
  "column_clash =
    [[5, 0, 0, 0, 0, 0, 0, 0, 0],
     [0, 0, 0, 0, 0, 0, 0, 0, 0],
     [0, 0, 0, 0, 0, 0, 0, 0, 0],
     [0, 0, 0, 0, 0, 0, 0, 0, 0],
     [5, 0, 0, 0, 0, 0, 0, 0, 0],
     [0, 0, 0, 0, 0, 0, 0, 0, 0],
     [0, 0, 0, 0, 0, 0, 0, 0, 0],
     [0, 0, 0, 0, 0, 0, 0, 0, 0],
     [0, 0, 0, 0, 0, 0, 0, 0, 0]]"

text \<open>
  The rendering as the specification describes it: a line of a grid row shows \<open>.\<close> for
  0 and the digit otherwise, one space between the cells of a group of three and
  \<open>|\<close> between the groups; the rule is 21 dashes.
\<close>

definition cell_char :: "int \<Rightarrow> char" where
  "cell_char v = (if v = 0 then CHR ''.'' else ''0123456789'' ! nat v)"

definition grid_line :: "board \<Rightarrow> nat \<Rightarrow> string" where
  "grid_line b r =
     [cell_char (b ! r ! 0), CHR '' '', cell_char (b ! r ! 1), CHR '' '', cell_char (b ! r ! 2),
      CHR '' '', CHR ''|'', CHR '' '',
      cell_char (b ! r ! 3), CHR '' '', cell_char (b ! r ! 4), CHR '' '', cell_char (b ! r ! 5),
      CHR '' '', CHR ''|'', CHR '' '',
      cell_char (b ! r ! 6), CHR '' '', cell_char (b ! r ! 7), CHR '' '', cell_char (b ! r ! 8)]"

definition rule_line :: string where
  "rule_line = ''---------------------''"

definition newline :: string where
  "newline = [CHR 0x0A]"


section \<open>Cell access on a well-shaped board\<close>

lemma index_of_nat: "n < length xs \<Longrightarrow> index_of xs (int n) = Inr n"
  by (simp add: index_of_def)

lemma index_of_bound: "index_of xs i = Inr k \<Longrightarrow> k < length xs"
  by (auto simp: index_of_def split: if_splits)

lemma well_shaped_length: "well_shaped b \<Longrightarrow> length b = 9"
  by (simp add: well_shaped_def)

lemma well_shaped_row: "well_shaped b \<Longrightarrow> r < 9 \<Longrightarrow> length (b ! r) = 9"
  by (simp add: well_shaped_def list_all_length)

lemma main_board_shaped: "well_shaped main_board"
  by code_simp

lemma grid_literal: "grid_of (literal g) = g"
  by (auto simp: grid_of_def literal_def intro!: nth_equalityI)

lemma refs_length: "well_shaped (grid_of s) \<Longrightarrow> length (row_refs s) = 9"
  using well_shaped_length [of "grid_of s"] by (simp add: grid_of_def)

lemma grid_row: "well_shaped (grid_of s) \<Longrightarrow> r < 9 \<Longrightarrow> grid_of s ! r = heap s (row_refs s ! r)"
  using refs_length [of s] by (simp add: grid_of_def)

lemma row_object_length:
  "well_shaped (grid_of s) \<Longrightarrow> r < 9 \<Longrightarrow> length (heap s (row_refs s ! r)) = 9"
  using well_shaped_row [of "grid_of s" r] by (simp add: grid_row)

lemma cell_grid:
  "well_shaped (grid_of s) \<Longrightarrow> r < 9 \<Longrightarrow> cell (grid_of s) (r, c) = heap s (row_refs s ! r) ! c"
  by (simp add: cell_def grid_row)

lemma get_value_in:
  "well_shaped (grid_of s) \<Longrightarrow> r < 9 \<Longrightarrow> c < 9 \<Longrightarrow>
   get_value s (int r) (int c) = Inr (cell (grid_of s) (r, c))"
  by (simp add: get_value_def getitem_def index_of_nat refs_length row_object_length cell_grid)

lemma set_value_in:
  "well_shaped (grid_of s) \<Longrightarrow> r < 9 \<Longrightarrow> c < 9 \<Longrightarrow>
   set_value s (int r) (int c) v = Inr (assign s r c v)"
  by (simp add: set_value_def getitem_def setitem_def index_of_nat refs_length
      row_object_length assign_def)

subsection \<open>The object after an assignment\<close>

lemma refs_assign: "row_refs (assign s r c v) = row_refs s"
  by (simp add: assign_def)

lemma heap_assign:
  "heap (assign s r c v) a =
     (if a = row_refs s ! r then (heap s a)[c := v] else heap s a)"
  by (simp add: assign_def)

lemma well_shaped_assign:
  assumes "well_shaped (grid_of s)"
  shows "well_shaped (grid_of (assign s r c v))"
proof -
  have "length (heap s a) = 9" if "a \<in> set (row_refs s)" for a
    using assms that by (auto simp: well_shaped_def grid_of_def list_all_iff)
  then have "length (heap (assign s r c v) a) = 9" if "a \<in> set (row_refs s)" for a
    using that by (auto simp: heap_assign)
  then show ?thesis
    using assms by (simp add: well_shaped_def grid_of_def list_all_iff refs_assign)
qed

lemma cell_assign:
  assumes "well_shaped (grid_of s)" and "c < 9" and "on_board q"
  shows "cell (grid_of (assign s r c v)) q =
     (if row_refs s ! fst q = row_refs s ! r \<and> snd q = c then v else cell (grid_of s) q)"
proof -
  obtain r' c' where q: "q = (r', c')"
    by (cases q)
  have rc: "r' < 9" "c' < 9"
    using assms(3) q by (simp_all add: on_board_def)
  have shaped: "well_shaped (grid_of (assign s r c v))"
    using assms(1) by (rule well_shaped_assign)
  have len: "length (heap s (row_refs s ! r')) = 9"
    using assms(1) rc(1) by (rule row_object_length)
  have "cell (grid_of (assign s r c v)) (r', c') = heap (assign s r c v) (row_refs s ! r') ! c'"
    using shaped rc(1) by (simp add: cell_grid refs_assign)
  also have "\<dots> =
      (if row_refs s ! r' = row_refs s ! r \<and> c' = c then v else heap s (row_refs s ! r') ! c')"
    using len assms(2) rc(2) by (auto simp: heap_assign nth_list_update)
  also have "heap s (row_refs s ! r') ! c' = cell (grid_of s) (r', c')"
    using assms(1) rc(1) by (simp add: cell_grid)
  finally show ?thesis
    by (simp add: q)
qed

lemma assign_twice: "assign (assign s r c v) r c w = assign s r c w"
  by (simp add: assign_def)

lemma assign_same:
  assumes "well_shaped (grid_of s)" and "r < 9"
  shows "assign s r c (cell (grid_of s) (r, c)) = s"
  using assms by (simp add: assign_def cell_grid)

lemma shared_row_cell:
  assumes "well_shaped (grid_of s)" and "r < 9" and "r' < 9"
    and "row_refs s ! r' = row_refs s ! r"
  shows "cell (grid_of s) (r', c) = cell (grid_of s) (r, c)"
  using assms by (simp add: cell_grid)

lemma separate_rows_cell_assign:
  assumes "well_shaped (grid_of s)" and "distinct (row_refs s)"
    and "r < 9" and "c < 9" and "on_board q"
  shows "cell (grid_of (assign s r c v)) q = (if q = (r, c) then v else cell (grid_of s) q)"
proof -
  have "fst q < length (row_refs s)" "r < length (row_refs s)"
    using assms(1,3,5) by (simp_all add: refs_length on_board_def)
  then have "row_refs s ! fst q = row_refs s ! r \<longleftrightarrow> fst q = r"
    using assms(2) by (simp add: nth_eq_iff_index_eq)
  then show ?thesis
    using cell_assign [OF assms(1,4,5), of r v] by (cases q) auto
qed

text \<open>
  C8 (as amended): on a 9x9 board an access whose row or column lies outside \<open>[-9, 8]\<close>
  raises \<^verbatim>\<open>IndexError\<close>, for \<open>get_value\<close> and \<open>set_value\<close> alike, and the
  board is not written. An index in \<open>[-9, -1]\<close> is no error: it addresses the cell
  nine places further, as Python's negative indices do.
\<close>

theorem access_outside_range:
  assumes "well_shaped (grid_of s)"
  shows "(row < - 9 \<or> 8 < row \<or> column < - 9 \<or> 8 < column \<longrightarrow>
            get_value s row column = Inl IndexError \<and>
            set_value s row column v = Inl IndexError) \<and>
         (- 9 \<le> row \<and> row < 0 \<longrightarrow>
            get_value s row column = get_value s (row + 9) column \<and>
            set_value s row column v = set_value s (row + 9) column v) \<and>
         (- 9 \<le> column \<and> column < 0 \<longrightarrow>
            get_value s row column = get_value s row (column + 9) \<and>
            set_value s row column v = set_value s row (column + 9) v)"
proof -
  have len: "length (row_refs s) = 9"
    using assms by (rule refs_length)
  have row_len: "length (heap s (row_refs s ! k)) = 9"
    if "index_of (row_refs s) row = Inr k" for k row
    using that index_of_bound [of "row_refs s" row k] assms len by (simp add: row_object_length)
  have outside: "get_value s row column = Inl IndexError \<and>
      set_value s row column v = Inl IndexError"
    if "row < - 9 \<or> 8 < row \<or> column < - 9 \<or> 8 < column"
  proof (cases "index_of (row_refs s) row")
    case (Inl e)
    then have "e = IndexError"
      by (auto simp: index_of_def split: if_splits)
    with Inl show ?thesis
      by (simp add: get_value_def set_value_def getitem_def)
  next
    case (Inr k)
    then have "\<not> (row < - 9 \<or> 8 < row)"
      using len by (auto simp: index_of_def split: if_splits)
    with that have "column < - 9 \<or> 8 < column"
      by blast
    then have "index_of (heap s (row_refs s ! k)) column = Inl IndexError"
      using row_len [OF Inr] by (auto simp: index_of_def)
    with Inr show ?thesis
      by (simp add: get_value_def set_value_def getitem_def setitem_def)
  qed
  have wrap_row: "index_of (row_refs s) row = index_of (row_refs s) (row + 9)"
    if "- 9 \<le> row \<and> row < 0"
    using that len by (simp add: index_of_def)
  have wrap_col: "index_of (heap s (row_refs s ! k)) column =
      index_of (heap s (row_refs s ! k)) (column + 9)"
    if "- 9 \<le> column \<and> column < 0" "index_of (row_refs s) row = Inr k" for k
    using that row_len [OF that(2)] by (simp add: index_of_def)
  have rows: "get_value s row column = get_value s (row + 9) column \<and>
      set_value s row column v = set_value s (row + 9) column v"
    if "- 9 \<le> row \<and> row < 0"
    using wrap_row [OF that] by (simp add: get_value_def set_value_def getitem_def)
  have cols: "get_value s row column = get_value s row (column + 9) \<and>
      set_value s row column v = set_value s row (column + 9) v"
    if "- 9 \<le> column \<and> column < 0"
    using wrap_col [OF that]
    by (auto simp: get_value_def set_value_def getitem_def setitem_def split: sum.splits)
  show ?thesis
    using outside rows cols by blast
qed

theorem access_outside_range_witness:
  "well_shaped (grid_of (literal main_board)) \<and>
   get_value (literal main_board) 9 0 = Inl IndexError \<and>
   set_value (literal main_board) 9 0 5 = Inl IndexError \<and>
   get_value (literal main_board) (- 3) 0 = get_value (literal main_board) 6 0"
proof -
  have shaped: "well_shaped (grid_of (literal main_board))"
    by (simp add: grid_literal main_board_shaped)
  show ?thesis
    using access_outside_range [OF shaped, of 9 0 5]
      access_outside_range [OF shaped, of "- 3" 0 5] shaped
    by simp
qed

text \<open>
  The claim as stated (every index outside \<open>[0, 8]\<close> fails) is false at row \<open>-3\<close>
  and at column \<open>-1\<close> of the puzzle of \<^verbatim>\<open>main\<close>: the read returns the 7 of row 6,
  the write changes the last cell of row 0.
\<close>

theorem negative_index_counterexample:
  "get_value (literal main_board) (- 3) 0 = Inr 7 \<and>
   map_sum id grid_of (set_value (literal main_board) 0 (- 1) 5) =
     Inr (main_board[0 := [0, 0, 7, 0, 8, 0, 4, 0, 5]])"
  by code_simp

section \<open>The candidates of a cell\<close>

lemma probe_in:
  "well_shaped (grid_of s) \<Longrightarrow> r < 9 \<Longrightarrow> c < 9 \<Longrightarrow>
   probe s (int r) (int c) acc vs =
     Inr (acc @ filter (\<lambda>v. is_valid (grid_of (assign s r c v))) vs,
          if vs = [] then s else assign s r c (last vs))"
proof (induction vs arbitrary: s acc)
  case Nil
  then show ?case by simp
next
  case (Cons v vs)
  have shaped: "well_shaped (grid_of (assign s r c v))"
    using Cons.prems(1) by (rule well_shaped_assign)
  show ?case
    using Cons.IH [OF shaped Cons.prems(2,3)] Cons.prems
    by (simp add: set_value_in assign_twice refs_assign)
qed

lemma valid_values_in:
  assumes "well_shaped (grid_of s)" and "r < 9" and "c < 9"
  shows "valid_values s (int r) (int c) =
           Inr (filter (\<lambda>v. is_valid (grid_of (assign s r c v))) [1..9], s)"
proof -
  have nine: "[1..9] \<noteq> []" "last [1..9] = (9::int)"
    by (simp_all add: upto.simps)
  have "assign (assign s r c 9) r c (cell (grid_of s) (r, c)) = s"
    using assms(1,2) by (simp add: assign_twice assign_same)
  then show ?thesis
    using assms nine
    by (simp add: valid_values_def get_value_in probe_in set_value_in well_shaped_assign)
qed

text \<open>
  C3: for a cell \<open>(r, c)\<close> of a 9x9 board, \<open>valid_values\<close> returns with the board
  it was given (no cell differs afterwards), the values returned are strictly ascending
  and lie in \<open>1..9\<close>, and a second call right after the first returns the same values
  and again the same board.
\<close>

theorem valid_values_no_net_mutation:
  assumes "well_shaped (grid_of s)" and "r < 9" and "c < 9"
  shows "\<exists>vals. valid_values s (int r) (int c) = Inr (vals, s) \<and>
           sorted_wrt (<) vals \<and> set vals \<subseteq> {1..9} \<and>
           valid_values_twice s (int r) (int c) = Inr (vals, vals, s)"
proof -
  let ?vals = "filter (\<lambda>v. is_valid (grid_of (assign s r c v))) [1..9]"
  have run: "valid_values s (int r) (int c) = Inr (?vals, s)"
    using assms by (rule valid_values_in)
  have "sorted_wrt (<) ?vals"
    by (rule sorted_wrt_filter) simp
  moreover have "set ?vals \<subseteq> {1..9}"
    by auto
  moreover have "valid_values_twice s (int r) (int c) = Inr (?vals, ?vals, s)"
    by (simp add: valid_values_twice_def run)
  ultimately show ?thesis
    using run by blast
qed

lemma main_object_shaped: "well_shaped (grid_of (literal main_board))"
  by (simp add: grid_literal main_board_shaped)

theorem valid_values_no_net_mutation_witness:
  "well_shaped (grid_of (literal main_board)) \<and>
   valid_values (literal main_board) 0 0 = Inr ([1, 3, 5, 6], literal main_board) \<and>
   valid_values_twice (literal main_board) 0 0 =
     Inr ([1, 3, 5, 6], [1, 3, 5, 6], literal main_board)"
proof -
  have vals: "map_sum id fst (valid_values (literal main_board) 0 0) = Inr [1, 3, 5, 6]"
    by code_simp
  from valid_values_no_net_mutation [of "literal main_board" 0 0, OF main_object_shaped]
  obtain vs where
    run: "valid_values (literal main_board) (int 0) (int 0) = Inr (vs, literal main_board)" and
    twice: "valid_values_twice (literal main_board) (int 0) (int 0) =
      Inr (vs, vs, literal main_board)"
    by auto
  from run vals have "vs = [1, 3, 5, 6]"
    by simp
  with run twice main_object_shaped show ?thesis
    by simp
qed


section \<open>Validity as a property of the 27 groups\<close>

lemma is_valid_values_distinct:
  "is_valid_values vs \<longleftrightarrow> distinct (filter (\<lambda>v. v \<noteq> 0) vs)"
  unfolding is_valid_values_def Let_def
  using card_distinct distinct_card by blast

lemma distinct_filter_map:
  "distinct ps \<Longrightarrow>
   distinct (filter (\<lambda>v. v \<noteq> (0::int)) (map f ps)) \<longleftrightarrow>
     (\<forall>p\<in>set ps. \<forall>q\<in>set ps. p \<noteq> q \<and> f p \<noteq> 0 \<longrightarrow> f p \<noteq> f q)"
proof (induction ps)
  case Nil
  then show ?case by simp
next
  case (Cons a ps)
  then show ?case
    by (auto simp: image_iff)
qed

lemma values_ok_iff_group_ok:
  "distinct g \<Longrightarrow> is_valid_values (map (cell b) g) \<longleftrightarrow> group_ok b g"
  unfolding is_valid_values_distinct group_ok_def
  by (rule distinct_filter_map)

lemma upt_3: "[0..<3] = [0, 1, 2]"
  by (simp add: upt_rec)

lemma distinct_row_group: "distinct (row_group r)"
  by (simp add: row_group_def distinct_map inj_on_def)

lemma distinct_column_group: "distinct (column_group i)"
  by (simp add: column_group_def distinct_map inj_on_def)

lemma distinct_square_group: "distinct (square_group i j)"
  by (simp add: square_group_def upt_3)

lemma distinct_square_groups: "g \<in> set square_groups \<Longrightarrow> distinct g"
  by (auto simp: square_groups_def distinct_square_group)

lemma row_view:
  assumes "well_shaped b" and "r < 9"
  shows "b ! r = map (cell b) (row_group r)"
proof -
  have "b ! r = map (\<lambda>c. b ! r ! c) [0..<length (b ! r)]"
    by (simp add: map_nth)
  then show ?thesis
    using assms by (simp add: well_shaped_row row_group_def cell_def comp_def)
qed

lemma column_view:
  assumes "well_shaped b" and "i < 9"
  shows "get_columns b ! i = map (cell b) (column_group i)"
proof -
  have "map (\<lambda>row. row ! i) b = map (\<lambda>row. row ! i) (map (\<lambda>r. b ! r) [0..<length b])"
    by (simp add: map_nth)
  then show ?thesis
    using assms by (simp add: get_columns_def well_shaped_length column_group_def cell_def comp_def)
qed

lemma squares_view: "get_squares b = map (map (cell b)) square_groups"
  by (simp add: get_squares_def square_groups_def square_group_def cell_def upt_3)

lemma rows_ok:
  assumes "well_shaped b"
  shows "is_valid_rows b \<longleftrightarrow> (\<forall>r<9. group_ok b (row_group r))"
proof -
  have "is_valid_rows b \<longleftrightarrow> (\<forall>r<9. is_valid_values (b ! r))"
    using assms by (simp add: is_valid_rows_def list_all_length well_shaped_length)
  also have "\<dots> \<longleftrightarrow> (\<forall>r<9. is_valid_values (map (cell b) (row_group r)))"
    using assms by (simp add: row_view)
  also have "\<dots> \<longleftrightarrow> (\<forall>r<9. group_ok b (row_group r))"
    by (simp add: values_ok_iff_group_ok distinct_row_group)
  finally show ?thesis .
qed

lemma columns_ok:
  assumes "well_shaped b"
  shows "is_valid_columns b \<longleftrightarrow> (\<forall>i<9. group_ok b (column_group i))"
proof -
  have "length (get_columns b) = 9"
    by (simp add: get_columns_def)
  then have "is_valid_columns b \<longleftrightarrow> (\<forall>i<9. is_valid_values (get_columns b ! i))"
    by (simp add: is_valid_columns_def list_all_length)
  also have "\<dots> \<longleftrightarrow> (\<forall>i<9. is_valid_values (map (cell b) (column_group i)))"
    using assms by (simp add: column_view)
  also have "\<dots> \<longleftrightarrow> (\<forall>i<9. group_ok b (column_group i))"
    by (simp add: values_ok_iff_group_ok distinct_column_group)
  finally show ?thesis .
qed

lemma squares_ok: "is_valid_squares b \<longleftrightarrow> (\<forall>g\<in>set square_groups. group_ok b g)"
proof -
  have "is_valid_squares b \<longleftrightarrow> (\<forall>g\<in>set square_groups. is_valid_values (map (cell b) g))"
    by (simp add: is_valid_squares_def squares_view list_all_iff)
  also have "\<dots> \<longleftrightarrow> (\<forall>g\<in>set square_groups. group_ok b g)"
    by (simp add: values_ok_iff_group_ok distinct_square_groups)
  finally show ?thesis .
qed

lemma is_valid_iff_groups:
  assumes "well_shaped b"
  shows "is_valid b \<longleftrightarrow> (\<forall>g\<in>set groups. group_ok b g)"
  using assms
  by (auto simp: is_valid_def rows_ok columns_ok squares_ok groups_def)

text \<open>
  C4: on a 9x9 board \<open>is_valid\<close> is true exactly when each of the 27 groups (the nine
  rows, the nine columns, the nine 3x3 squares aligned at multiples of 3) has no two
  different cells with the same non-zero value; cells holding 0 are left out.
\<close>

theorem is_valid_iff_27_groups:
  assumes "well_shaped b"
  shows "length groups = 27 \<and> (is_valid b \<longleftrightarrow> (\<forall>g\<in>set groups. group_ok b g))"
proof -
  have "length groups = 27"
    by (simp add: groups_def square_groups_def)
  moreover have "is_valid b \<longleftrightarrow> (\<forall>g\<in>set groups. group_ok b g)"
    using assms by (auto simp: is_valid_def rows_ok columns_ok squares_ok groups_def)
  ultimately show ?thesis
    by simp
qed

theorem is_valid_iff_27_groups_witness:
  "well_shaped main_board \<and> is_valid main_board \<and> list_all (group_ok main_board) groups"
proof -
  have "is_valid main_board"
    by code_simp
  with is_valid_iff_27_groups [OF main_board_shaped] main_board_shaped show ?thesis
    by (simp add: list_all_iff)
qed

subsection \<open>Validity in terms of pairs of cells\<close>

lemma in_row_group: "p \<in> set (row_group r) \<longleftrightarrow> fst p = r \<and> snd p < 9"
  by (cases p) (auto simp: row_group_def)

lemma in_column_group: "p \<in> set (column_group i) \<longleftrightarrow> fst p < 9 \<and> snd p = i"
  by (cases p) (auto simp: column_group_def)

lemma offset_range: "(\<exists>k<3. x = i + k) \<longleftrightarrow> i \<le> x \<and> x < i + (3::nat)"
proof
  assume "\<exists>k<3. x = i + k"
  then show "i \<le> x \<and> x < i + 3" by auto
next
  assume "i \<le> x \<and> x < i + 3"
  then have "x - i < 3 \<and> x = i + (x - i)" by arith
  then show "\<exists>k<3. x = i + k" by blast
qed

lemma in_square_group:
  "p \<in> set (square_group i j) \<longleftrightarrow>
     i \<le> fst p \<and> fst p < i + 3 \<and> j \<le> snd p \<and> snd p < j + 3"
proof -
  have "p \<in> set (square_group i j) \<longleftrightarrow>
          (\<exists>k<3. fst p = i + k) \<and> (\<exists>l<3. snd p = j + l)"
    by (cases p) (auto simp: square_group_def image_iff Bex_def)
  then show ?thesis
    by (simp only: offset_range) simp
qed

lemma set_square_groups:
  "set square_groups = {square_group i j |i j. i \<in> {0, 3, 6} \<and> j \<in> {0, 3, 6}}"
  by (auto simp: square_groups_def)

lemma block_start: "r < 9 \<Longrightarrow> 3 * (r div 3) \<in> {0, 3, 6::nat}"
proof -
  assume "r < 9"
  then have "r div 3 = 0 \<or> r div 3 = 1 \<or> r div 3 = 2"
    by arith
  then show ?thesis
    by auto
qed

lemma block_bounds: "3 * (r div 3) \<le> r \<and> r < 3 * (r div 3) + (3::nat)"
  by arith

lemma in_block:
  assumes "(i::nat) \<in> {0, 3, 6}" and "i \<le> r" and "r < i + 3"
  shows "i = 3 * (r div 3)"
proof -
  from assms(1) consider "i = 0" | "i = 3" | "i = 6"
    by auto
  then show ?thesis
    using assms(2,3) by cases arith+
qed

lemma share_group_iff:
  assumes "on_board p" and "on_board q"
  shows "(\<exists>g\<in>set groups. p \<in> set g \<and> q \<in> set g) \<longleftrightarrow> same_group p q"
proof
  assume "\<exists>g\<in>set groups. p \<in> set g \<and> q \<in> set g"
  then obtain g where g: "g \<in> set groups" "p \<in> set g" "q \<in> set g"
    by blast
  from g(1) consider
    (row) r where "g = row_group r" |
    (col) i where "g = column_group i" |
    (sq) i j where "g = square_group i j" "i \<in> {0, 3, 6}" "j \<in> {0, 3, 6}"
    unfolding groups_def set_append set_square_groups by auto
  then show "same_group p q"
  proof cases
    case row
    with g(2,3) show ?thesis by (simp add: in_row_group same_group_def)
  next
    case col
    with g(2,3) show ?thesis by (simp add: in_column_group same_group_def)
  next
    case sq
    from g(2,3) have
      bp: "i \<le> fst p" "fst p < i + 3" "j \<le> snd p" "snd p < j + 3" and
      bq: "i \<le> fst q" "fst q < i + 3" "j \<le> snd q" "snd q < j + 3"
      by (simp_all add: sq(1) in_square_group)
    have "3 * (fst p div 3) = 3 * (fst q div 3)"
      using in_block [OF sq(2) bp(1,2)] in_block [OF sq(2) bq(1,2)] by simp
    moreover have "3 * (snd p div 3) = 3 * (snd q div 3)"
      using in_block [OF sq(3) bp(3,4)] in_block [OF sq(3) bq(3,4)] by simp
    ultimately show ?thesis
      by (simp add: same_group_def)
  qed
next
  assume "same_group p q"
  then consider
    (row) "fst p = fst q" |
    (col) "snd p = snd q" |
    (sq) "fst p div 3 = fst q div 3" "snd p div 3 = snd q div 3"
    unfolding same_group_def by blast
  then show "\<exists>g\<in>set groups. p \<in> set g \<and> q \<in> set g"
  proof cases
    case row
    have "row_group (fst p) \<in> set groups"
      using assms by (simp add: groups_def on_board_def)
    moreover have "p \<in> set (row_group (fst p))" "q \<in> set (row_group (fst p))"
      using assms row by (simp_all add: in_row_group on_board_def)
    ultimately show ?thesis by blast
  next
    case col
    have "column_group (snd p) \<in> set groups"
      using assms by (simp add: groups_def on_board_def)
    moreover have "p \<in> set (column_group (snd p))" "q \<in> set (column_group (snd p))"
      using assms col by (simp_all add: in_column_group on_board_def)
    ultimately show ?thesis by blast
  next
    case sq
    let ?i = "3 * (fst p div 3)" and ?j = "3 * (snd p div 3)"
    have "?i \<in> {0, 3, 6}" "?j \<in> {0, 3, 6}"
      using assms(1) block_start unfolding on_board_def by blast+
    then have "square_group ?i ?j \<in> set groups"
      unfolding groups_def set_append set_square_groups by blast
    moreover have "p \<in> set (square_group ?i ?j)"
      using block_bounds [of "fst p"] block_bounds [of "snd p"]
      by (simp add: in_square_group)
    moreover have "q \<in> set (square_group ?i ?j)"
      using block_bounds [of "fst q"] block_bounds [of "snd q"] sq
      by (simp add: in_square_group)
    ultimately show ?thesis by blast
  qed
qed

lemma group_on_board:
  assumes "g \<in> set groups" and "p \<in> set g"
  shows "on_board p"
proof -
  from assms(1) consider
    (row) r where "g = row_group r" "r < 9" |
    (col) i where "g = column_group i" "i < 9" |
    (sq) i j where "g = square_group i j" "i \<in> {0, 3, 6}" "j \<in> {0, 3, 6}"
    unfolding groups_def set_append set_square_groups by auto
  then show ?thesis
  proof cases
    case row
    with assms(2) show ?thesis by (simp add: in_row_group on_board_def)
  next
    case col
    with assms(2) show ?thesis by (simp add: in_column_group on_board_def)
  next
    case sq
    from assms(2) have "fst p < i + 3" "snd p < j + 3"
      by (simp_all add: sq(1) in_square_group)
    with sq(2,3) show ?thesis
      unfolding on_board_def by auto
  qed
qed

lemma is_valid_iff_cells:
  assumes "well_shaped b"
  shows "is_valid b \<longleftrightarrow>
    (\<forall>p q. on_board p \<and> on_board q \<and> p \<noteq> q \<and> same_group p q \<and> cell b p \<noteq> 0
       \<longrightarrow> cell b p \<noteq> cell b q)"
    (is "_ \<longleftrightarrow> ?R")
proof
  assume "is_valid b"
  then have ok: "\<forall>g\<in>set groups. group_ok b g"
    using assms by (simp add: is_valid_iff_groups)
  show ?R
  proof (intro allI impI)
    fix p q
    assume h: "on_board p \<and> on_board q \<and> p \<noteq> q \<and> same_group p q \<and> cell b p \<noteq> 0"
    then obtain g where "g \<in> set groups" "p \<in> set g" "q \<in> set g"
      using share_group_iff [of p q] by blast
    with ok h show "cell b p \<noteq> cell b q"
      unfolding group_ok_def by blast
  qed
next
  assume r: ?R
  have "group_ok b g" if "g \<in> set groups" for g
    unfolding group_ok_def
  proof (intro ballI impI)
    fix p q
    assume pq: "p \<in> set g" "q \<in> set g" "p \<noteq> q \<and> cell b p \<noteq> 0"
    then have "on_board p" "on_board q"
      using that group_on_board by blast+
    moreover have "same_group p q"
      using share_group_iff [OF \<open>on_board p\<close> \<open>on_board q\<close>] that pq by blast
    ultimately show "cell b p \<noteq> cell b q"
      using r pq by blast
  qed
  then show "is_valid b"
    using assms by (simp add: is_valid_iff_groups)
qed


section \<open>What the candidates of a cell are\<close>

lemma set_cells: "set cells = {p. on_board p}"
  by (auto simp: cells_def on_board_def)

lemma creates_duplicate_iff:
  "creates_duplicate b r c v \<longleftrightarrow>
     (\<exists>q. on_board q \<and> q \<noteq> (r, c) \<and> same_group (r, c) q \<and> cell b q = v)"
  by (auto simp: creates_duplicate_def list_ex_iff set_cells)

lemma same_group_sym: "same_group p q \<Longrightarrow> same_group q p"
  by (auto simp: same_group_def)


lemma valid_no_duplicate:
  assumes "well_shaped (grid_of s)" and "r < 9" and "c < 9" and "v \<noteq> 0"
    and "is_valid (grid_of (assign s r c v))"
  shows "\<not> creates_duplicate (grid_of s) r c v"
proof
  assume "creates_duplicate (grid_of s) r c v"
  then obtain q where q: "on_board q" "q \<noteq> (r, c)" "same_group (r, c) q"
    "cell (grid_of s) q = v"
    unfolding creates_duplicate_iff by blast
  let ?g = "grid_of (assign s r c v)"
  have shaped: "well_shaped ?g"
    using assms(1) by (rule well_shaped_assign)
  have here: "on_board (r, c)"
    using assms by (simp add: on_board_def)
  have "cell ?g (r, c) = v"
    using assms(1,3) here by (simp add: cell_assign)
  moreover have "cell ?g q = v"
    using assms(1,3) q(1,4) by (simp add: cell_assign)
  moreover have "cell ?g (r, c) \<noteq> cell ?g q"
    using assms(4,5) q here \<open>cell ?g (r, c) = v\<close>
    unfolding is_valid_iff_cells [OF shaped] by metis
  ultimately show False
    by simp
qed

lemma no_duplicate_valid:
  assumes "well_shaped (grid_of s)" and "distinct (row_refs s)"
    and "r < 9" and "c < 9" and "v \<noteq> 0"
    and "is_valid (grid_of (assign s r c 0))" and "\<not> creates_duplicate (grid_of s) r c v"
  shows "is_valid (grid_of (assign s r c v))"
proof -
  let ?b = "grid_of s" and ?f = "grid_of (assign s r c v)" and ?e = "grid_of (assign s r c 0)"
  have shaped: "well_shaped ?f" "well_shaped ?e"
    using assms(1) by (simp_all add: well_shaped_assign)
  have at: "cell (grid_of (assign s r c w)) q = (if q = (r, c) then w else cell ?b q)"
    if "on_board q" for q w
    using assms(1-4) that by (rule separate_rows_cell_assign)
  have emptied: "cell ?e p \<noteq> cell ?e q"
    if "on_board p" "on_board q" "p \<noteq> q" "same_group p q" "cell ?e p \<noteq> 0" for p q
    using assms(6) that unfolding is_valid_iff_cells [OF shaped(2)] by blast
  have free: "cell ?b q \<noteq> v" if "on_board q" "q \<noteq> (r, c)" "same_group (r, c) q" for q
    using assms(7) that unfolding creates_duplicate_iff by blast
  have "cell ?f p \<noteq> cell ?f q"
    if h: "on_board p" "on_board q" "p \<noteq> q" "same_group p q" "cell ?f p \<noteq> 0" for p q
  proof (cases "p = (r, c)")
    case True
    then have "q \<noteq> (r, c)" "same_group (r, c) q"
      using h by auto
    then have "cell ?b q \<noteq> v"
      using free h(2) by blast
    then show ?thesis
      using h(1,2) True \<open>q \<noteq> (r, c)\<close> by (simp add: at)
  next
    case False
    show ?thesis
    proof (cases "q = (r, c)")
      case True
      have "same_group (r, c) p"
        using h(4) True by (simp add: same_group_sym)
      then have "cell ?b p \<noteq> v"
        using free h(1) False by blast
      then show ?thesis
        using h(1,2) True False by (simp add: at)
    next
      case q: False
      have "cell ?e p = cell ?b p" "cell ?e q = cell ?b q" "cell ?f p = cell ?b p"
        "cell ?f q = cell ?b q"
        using h(1,2) False q by (simp_all add: at)
      then show ?thesis
        using emptied [OF h(1-4)] h(5) by simp
    qed
  qed
  then show ?thesis
    unfolding is_valid_iff_cells [OF shaped(1)] by blast
qed

text \<open>
  C2 (as amended): for a cell \<open>(r, c)\<close> of a 9x9 board, \<open>valid_values\<close> returns exactly
  the values \<open>v\<close> of \<open>1..9\<close> for which the whole board is valid once \<open>v\<close> is written
  at \<open>(r, c)\<close>. So it returns no value whose placement creates a duplicate in the row,
  column or square of the cell; and when the rows of the board are separate list objects
  and the board with the cell emptied is valid, it returns every value of \<open>1..9\<close> whose
  placement creates no such duplicate.
\<close>

theorem valid_values_characterised:
  assumes "well_shaped (grid_of s)" and "r < 9" and "c < 9"
  shows "\<exists>vals. valid_values s (int r) (int c) = Inr (vals, s) \<and>
           set vals = {v. 1 \<le> v \<and> v \<le> 9 \<and> is_valid (grid_of (assign s r c v))} \<and>
           (\<forall>v\<in>set vals. \<not> creates_duplicate (grid_of s) r c v) \<and>
           (distinct (row_refs s) \<and> is_valid (grid_of (assign s r c 0)) \<longrightarrow>
              set vals = {v. 1 \<le> v \<and> v \<le> 9 \<and> \<not> creates_duplicate (grid_of s) r c v})"
proof -
  let ?vals = "filter (\<lambda>v. is_valid (grid_of (assign s r c v))) [1..9]"
  have run: "valid_values s (int r) (int c) = Inr (?vals, s)"
    using assms by (rule valid_values_in)
  have whole: "set ?vals = {v. 1 \<le> v \<and> v \<le> 9 \<and> is_valid (grid_of (assign s r c v))}"
    by auto
  have sound: "\<forall>v\<in>set ?vals. \<not> creates_duplicate (grid_of s) r c v"
    using assms valid_no_duplicate [of s r c] by auto
  have complete: "set ?vals = {v. 1 \<le> v \<and> v \<le> 9 \<and> \<not> creates_duplicate (grid_of s) r c v}"
    if "distinct (row_refs s) \<and> is_valid (grid_of (assign s r c 0))"
    using assms that valid_no_duplicate [of s r c] no_duplicate_valid [of s r c]
    by auto
  show ?thesis
    using run whole sound complete by blast
qed

lemma literal_separate: "distinct (row_refs (literal g))"
  by (simp add: literal_def)

theorem valid_values_characterised_witness:
  "well_shaped (grid_of (literal main_board)) \<and> distinct (row_refs (literal main_board)) \<and>
   is_valid (grid_of (assign (literal main_board) 0 0 0)) \<and>
   valid_values (literal main_board) 0 0 = Inr ([1, 3, 5, 6], literal main_board) \<and>
   {v. 1 \<le> v \<and> v \<le> 9 \<and> \<not> creates_duplicate main_board 0 0 v} = {1, 3, 5, 6}"
proof -
  have found: "map_sum id fst (valid_values (literal main_board) 0 0) = Inr [1, 3, 5, 6]"
    by code_simp
  have emptied: "is_valid (grid_of (assign (literal main_board) 0 0 0))"
    by code_simp
  from valid_values_characterised [of "literal main_board" 0 0, OF main_object_shaped]
  obtain vals where
    vals: "valid_values (literal main_board) (int 0) (int 0) = Inr (vals, literal main_board)" and
    dup: "distinct (row_refs (literal main_board)) \<and>
        is_valid (grid_of (assign (literal main_board) 0 0 0)) \<longrightarrow>
       set vals = {v. 1 \<le> v \<and> v \<le> 9 \<and>
         \<not> creates_duplicate (grid_of (literal main_board)) 0 0 v}"
    by auto
  from vals found have v: "vals = [1, 3, 5, 6]"
    by simp
  from dup emptied
  have "{v. 1 \<le> v \<and> v \<le> 9 \<and> \<not> creates_duplicate main_board 0 0 v} = set vals"
    by (simp add: literal_separate grid_literal)
  then
  have "{v. 1 \<le> v \<and> v \<le> 9 \<and> \<not> creates_duplicate main_board 0 0 v} = {1, 3, 5, 6}"
    by (simp add: v)
  with vals v emptied main_object_shaped literal_separate show ?thesis
    by simp
qed

text \<open>
  The claim as stated, for every board, is false: on the board with two 5s in the last
  row (its rows separate list objects), the value 1 placed at \<open>(0, 0)\<close> creates no
  duplicate in row 0, column 0 or the first square, and yet \<open>valid_values\<close> returns no
  value at all.
\<close>

theorem valid_values_counterexample:
  "map_sum id fst (valid_values (literal two_fives) 0 0) = Inr [] \<and>
   \<not> creates_duplicate (grid_of (literal two_fives)) 0 0 1"
  by code_simp

text \<open>
  Why the rows have to be separate objects for the last part: on the board of
  \<^verbatim>\<open>[[0] * 9] * 9\<close>, which the constructor accepts and which is valid, a write at
  \<open>(0, 0)\<close> lands in all nine rows, so no value is a candidate, although no value is
  on the board yet.
\<close>

lemma shared_rows_no_candidate:
  "Board_init shared_zeros = Inr shared_zeros \<and> is_valid (grid_of shared_zeros) \<and>
   map_sum id fst (valid_values shared_zeros 0 0) = Inr [] \<and>
   \<not> creates_duplicate (grid_of shared_zeros) 0 0 1"
proof -
  have "length (grid_of shared_zeros) = 9 \<and>
      list_all (\<lambda>row. length row = 9) (grid_of shared_zeros) \<and>
      list_all (\<lambda>v. 0 \<le> v \<and> v \<le> 9) (concat (grid_of shared_zeros))"
    by code_simp
  then have "Board_init shared_zeros = Inr shared_zeros"
    by (simp add: Board_init_def)
  moreover have "is_valid (grid_of shared_zeros) \<and>
      map_sum id fst (valid_values shared_zeros 0 0) = Inr [] \<and>
      \<not> creates_duplicate (grid_of shared_zeros) 0 0 1"
    by code_simp
  ultimately show ?thesis
    by simp
qed


section \<open>The solver\<close>

subsection \<open>Clues, empty cells and completions\<close>

lemma keeps_clues_iff:
  "keeps_clues b b' \<longleftrightarrow> (\<forall>p. on_board p \<and> cell b p \<noteq> 0 \<longrightarrow> cell b' p = cell b p)"
  by (auto simp: keeps_clues_def list_all_iff set_cells)

lemma fills_digits_iff:
  "fills_digits b b' \<longleftrightarrow>
     (\<forall>p. on_board p \<and> cell b p = 0 \<longrightarrow> 1 \<le> cell b' p \<and> cell b' p \<le> 9)"
  by (auto simp: fills_digits_def list_all_iff set_cells)

lemma keeps_clues_cells:
  "keeps_clues b b' \<Longrightarrow> r < 9 \<Longrightarrow> c < 9 \<Longrightarrow> b ! r ! c \<noteq> 0 \<Longrightarrow> b' ! r ! c = b ! r ! c"
  unfolding keeps_clues_iff
  by (drule spec [of _ "(r, c)"]) (simp add: on_board_def cell_def)

lemma finished_no_zero:
  assumes "well_shaped b" and "is_finished b" and "on_board p"
  shows "cell b p \<noteq> 0"
proof -
  have r: "fst p < length b" and c: "snd p < length (b ! fst p)"
    using assms(1,3) by (simp_all add: on_board_def well_shaped_length well_shaped_row)
  then have "b ! fst p \<in> set b" "b ! fst p ! snd p \<in> set (b ! fst p)"
    by simp_all
  then have "cell b p \<in> set (concat b)"
    unfolding cell_def by auto
  then show ?thesis
    using assms(2) by (auto simp: is_finished_def list_all_iff)
qed

lemma completion_finished:
  assumes "well_shaped b" and "is_finished b"
  shows "completion b b"
  using assms finished_no_zero [OF assms]
  by (simp add: completion_def keeps_clues_iff fills_digits_iff)

text \<open>
  A cell that changes when a value is written at an empty cell shares the row object of
  that cell and stands in the same column, so it was empty too.
\<close>

lemma assign_empty_cell:
  assumes "well_shaped (grid_of s)" and "r < 9" and "c < 9" and "cell (grid_of s) (r, c) = 0"
    and "on_board p"
  shows "cell (grid_of (assign s r c v)) p = (if cell (grid_of s) p = 0 \<and>
      row_refs s ! fst p = row_refs s ! r \<and> snd p = c then v else cell (grid_of s) p)"
proof (cases "row_refs s ! fst p = row_refs s ! r \<and> snd p = c")
  case True
  then have "cell (grid_of s) (fst p, snd p) = cell (grid_of s) (r, c)"
    using assms(1,2,5) shared_row_cell [of s r "fst p" c] by (simp add: on_board_def)
  then have "cell (grid_of s) p = 0"
    using assms(4) by simp
  with True show ?thesis
    using assms(1,3,5) by (simp add: cell_assign)
next
  case False
  then show ?thesis
    using assms(1,3,5) by (auto simp: cell_assign)
qed

lemma completion_fill:
  assumes "well_shaped (grid_of s)" and "r < 9" and "c < 9" and "cell (grid_of s) (r, c) = 0"
    and "1 \<le> v" and "v \<le> 9"
    and "completion (grid_of (assign s r c v)) g"
  shows "completion (grid_of s) g"
proof -
  let ?b = "grid_of s" and ?f = "grid_of (assign s r c v)"
  have at: "cell ?f p = (if cell ?b p = 0 \<and>
      row_refs s ! fst p = row_refs s ! r \<and> snd p = c then v else cell ?b p)"
    if "on_board p" for p
    using assms(1-4) that by (rule assign_empty_cell)
  have kept: "cell g p = cell ?f p" if "on_board p" "cell ?f p \<noteq> 0" for p
    using assms(7) that unfolding completion_def keeps_clues_iff by metis
  have filled: "1 \<le> cell g p \<and> cell g p \<le> 9" if "on_board p" "cell ?f p = 0" for p
    using assms(7) that unfolding completion_def fills_digits_iff by metis
  have "cell g p = cell ?b p" if "on_board p" "cell ?b p \<noteq> 0" for p
    using that kept [of p] by (simp add: at)
  moreover have "1 \<le> cell g p \<and> cell g p \<le> 9" if p: "on_board p" "cell ?b p = 0" for p
  proof (cases "cell ?f p = 0")
    case True
    with p show ?thesis by (simp add: filled)
  next
    case False
    then have "cell ?f p = v"
      using p by (simp add: at split: if_splits)
    then show ?thesis
      using kept [OF p(1) False] assms(5,6) by simp
  qed
  ultimately show ?thesis
    using assms(7) unfolding completion_def keeps_clues_iff fills_digits_iff by blast
qed

lemma filter_length_mono:
  "(\<forall>x\<in>set xs. Q x \<longrightarrow> P x) \<Longrightarrow> length (filter Q xs) \<le> length (filter P xs)"
  by (induction xs) auto

lemma filter_length_less:
  "(\<forall>x\<in>set xs. Q x \<longrightarrow> P x) \<Longrightarrow> a \<in> set xs \<Longrightarrow> P a \<Longrightarrow> \<not> Q a \<Longrightarrow>
   length (filter Q xs) < length (filter P xs)"
proof (induction xs)
  case Nil
  then show ?case by simp
next
  case (Cons x xs)
  have rest: "length (filter Q xs) \<le> length (filter P xs)"
    using Cons.prems(1) by (simp add: filter_length_mono)
  show ?case
  proof (cases "a = x")
    case True
    with Cons.prems rest show ?thesis by simp
  next
    case False
    with Cons.prems have "length (filter Q xs) < length (filter P xs)"
      using Cons.IH by simp
    with Cons.prems(1) show ?thesis by auto
  qed
qed

lemma empty_cells_bound: "length (empty_cells b) \<le> 81"
proof -
  have "length cells = 81"
    by (simp add: cells_def length_concat comp_def sum_list_triv)
  moreover have "length (empty_cells b) \<le> length cells"
    unfolding empty_cells_def by (rule length_filter_le)
  ultimately show ?thesis by simp
qed


lemma empty_cells_fill:
  assumes "well_shaped (grid_of s)" and "r < 9" and "c < 9" and "cell (grid_of s) (r, c) = 0"
    and "v \<noteq> 0"
  shows "length (empty_cells (grid_of (assign s r c v))) < length (empty_cells (grid_of s))"
  unfolding empty_cells_def
proof (rule filter_length_less [where a = "(r, c)"])
  show "\<forall>p\<in>set cells. cell (grid_of (assign s r c v)) p = 0 \<longrightarrow> cell (grid_of s) p = 0"
    using assms by (auto simp: set_cells assign_empty_cell split: if_splits)
  show "(r, c) \<in> set cells"
    using assms by (simp add: set_cells on_board_def)
  show "cell (grid_of s) (r, c) = 0"
    by (rule assms(4))
  show "cell (grid_of (assign s r c v)) (r, c) \<noteq> 0"
    using assms by (simp add: assign_empty_cell on_board_def)
qed

lemma invalid_stays_invalid:
  assumes "well_shaped b" and "well_shaped b'" and "keeps_clues b b'" and "is_valid b'"
  shows "is_valid b"
  unfolding is_valid_iff_cells [OF assms(1)]
proof (intro allI impI)
  fix p q
  assume h: "on_board p \<and> on_board q \<and> p \<noteq> q \<and> same_group p q \<and> cell b p \<noteq> 0"
  show "cell b p \<noteq> cell b q"
  proof
    assume eq: "cell b p = cell b q"
    then have "cell b q \<noteq> 0"
      using h by simp
    then have "cell b' p = cell b p" "cell b' q = cell b q"
      using assms(3) h unfolding keeps_clues_iff by blast+
    then have "cell b' p = cell b' q" "cell b' p \<noteq> 0"
      using eq h by simp_all
    then show False
      using assms(4) h unfolding is_valid_iff_cells [OF assms(2)] by blast
  qed
qed


lemma Board_init_shaped: "Board_init g = Inr s \<Longrightarrow> s = g \<and> well_shaped (grid_of s)"
  by (auto simp: Board_init_def well_shaped_def split: if_splits)

subsection \<open>A run that returns is sound\<close>

text \<open>The scan stops at the first empty cell.\<close>

lemma scan_first_empty:
  assumes "well_shaped (grid_of s)" and "\<forall>p\<in>set cs. on_board p"
  shows "scan rec s cs =
    (case filter (\<lambda>p. cell (grid_of s) p = 0) cs of
       [] \<Rightarrow> Some (Inr (False, s))
     | p # _ \<Rightarrow> try_values rec s (fst p) (snd p)
                  (filter (\<lambda>v. is_valid (grid_of (assign s (fst p) (snd p) v))) [1..9]))"
  using assms(2)
proof (induction cs)
  case Nil
  then show ?case by simp
next
  case (Cons p cs)
  obtain r c where p: "p = (r, c)"
    by (cases p)
  have rc: "r < 9" "c < 9"
    using Cons.prems p by (simp_all add: on_board_def)
  show ?case
    using Cons assms(1) rc
    by (simp add: p get_value_in valid_values_in)
qed

lemma undo_assign:
  assumes "well_shaped (grid_of s)" and "r < 9" and "cell (grid_of s) (r, c) = 0"
  shows "assign (assign s r c v) r c 0 = s"
  using assign_same [OF assms(1,2), of c] assms(3) by (simp add: assign_twice)

lemma try_values_sound:
  assumes rec: "\<And>s1 res. well_shaped (grid_of s1) \<Longrightarrow> rec s1 = Some res \<Longrightarrow> sound_run s1 res"
    and "well_shaped (grid_of s)" and "r < 9" and "c < 9" and "cell (grid_of s) (r, c) = 0"
    and "\<forall>v\<in>set vs. 1 \<le> v \<and> v \<le> 9"
    and "try_values rec s r c vs = Some res"
  shows "sound_run s res"
  using assms(6,7)
proof (induction vs)
  case Nil
  then show ?case
    using assms(2) by (auto simp: sound_run_def)
next
  case (Cons v vs)
  let ?s1 = "assign s r c v"
  have shaped: "well_shaped (grid_of ?s1)"
    using assms(2) by (rule well_shaped_assign)
  have undo: "assign ?s1 r c 0 = s"
    using assms(2,3,5) by (rule undo_assign)
  have digit: "1 \<le> v" "v \<le> 9"
    using Cons.prems(1) by simp_all
  from Cons.prems(2) obtain res1 where res1: "rec ?s1 = Some res1"
    using assms(2-4) by (auto simp: set_value_in split: option.splits)
  have s1: "sound_run ?s1 res1"
    using rec [OF shaped res1] .
  then obtain ok s2 where r1: "res1 = Inr (ok, s2)" "well_shaped (grid_of s2)"
    by (auto simp: sound_run_def split: sum.splits)
  show ?case
  proof (cases ok)
    case True
    then have "res = Inr (True, s2)"
      using Cons.prems(2) assms(2-4) res1 r1 by (simp add: set_value_in)
    moreover have "completion (grid_of ?s1) (grid_of s2)"
      using s1 r1 True by (simp add: sound_run_def)
    then have "completion (grid_of s) (grid_of s2)"
      using assms(2-5) digit by (intro completion_fill [of s r c v])
    ultimately show ?thesis
      using r1(2) by (simp add: sound_run_def)
  next
    case False
    then have "s2 = ?s1"
      using s1 r1 by (simp add: sound_run_def)
    then have "try_values rec s r c vs = Some res"
      using Cons.prems(2) assms(2-4) res1 r1 False shaped undo by (simp add: set_value_in)
    then show ?thesis
      using Cons.IH Cons.prems(1) by simp
  qed
qed

lemma on_board_cells: "\<forall>p\<in>set cells. on_board p"
  by (simp add: set_cells)

lemma scan_cells:
  assumes "well_shaped (grid_of s)"
  shows "scan rec s cells =
    (case empty_cells (grid_of s) of
       [] \<Rightarrow> Some (Inr (False, s))
     | p # _ \<Rightarrow> try_values rec s (fst p) (snd p)
                  (filter (\<lambda>v. is_valid (grid_of (assign s (fst p) (snd p) v))) [1..9]))"
  unfolding empty_cells_def
  using assms on_board_cells by (rule scan_first_empty)

lemma first_empty_cell:
  assumes "empty_cells b = p # ps"
  shows "fst p < 9" and "snd p < 9" and "cell b (fst p, snd p) = 0"
proof -
  have "p \<in> set (empty_cells b)"
    using assms by simp
  then have "on_board p \<and> cell b p = 0"
    by (simp add: empty_cells_def set_cells)
  then show "fst p < 9" and "snd p < 9" and "cell b (fst p, snd p) = 0"
    by (simp_all add: on_board_def)
qed

lemma candidates_are_digits: "\<forall>v\<in>set (filter P [1..9]). 1 \<le> v \<and> v \<le> (9::int)"
  by auto

lemma solve_sound:
  "well_shaped (grid_of s) \<Longrightarrow> solve n s = Some res \<Longrightarrow> sound_run s res"
proof (induction n arbitrary: s res)
  case 0
  then show ?case by simp
next
  case (Suc n)
  show ?case
  proof (cases "is_finished (grid_of s)")
    case True
    with Suc.prems have "res = Inr (True, s)"
      by simp
    with True Suc.prems(1) show ?thesis
      by (simp add: sound_run_def completion_finished)
  next
    case False
    with Suc.prems(2) have run: "scan (solve n) s cells = Some res"
      by simp
    show ?thesis
    proof (cases "empty_cells (grid_of s)")
      case Nil
      with run have "res = Inr (False, s)"
        by (simp add: scan_cells [OF Suc.prems(1)])
      with Suc.prems(1) show ?thesis
        by (simp add: sound_run_def)
    next
      case (Cons p ps)
      with run have tv: "try_values (solve n) s (fst p) (snd p)
          (filter (\<lambda>v. is_valid (grid_of (assign s (fst p) (snd p) v))) [1..9]) = Some res"
        by (simp add: scan_cells [OF Suc.prems(1)])
      have rec: "\<And>s1 res. well_shaped (grid_of s1) \<Longrightarrow> solve n s1 = Some res \<Longrightarrow>
          sound_run s1 res"
        by (rule Suc.IH)
      show ?thesis
        by (rule try_values_sound [OF rec Suc.prems(1) first_empty_cell [OF Cons]
              candidates_are_digits tv])
    qed
  qed
qed

subsection \<open>Every run returns\<close>

lemma try_values_returns:
  assumes ret: "\<And>s1. well_shaped (grid_of s1) \<Longrightarrow>
        length (empty_cells (grid_of s1)) < length (empty_cells (grid_of s)) \<Longrightarrow>
        rec s1 \<noteq> None"
    and rec: "\<And>s1 res. well_shaped (grid_of s1) \<Longrightarrow> rec s1 = Some res \<Longrightarrow> sound_run s1 res"
    and "well_shaped (grid_of s)" and "r < 9" and "c < 9" and "cell (grid_of s) (r, c) = 0"
    and "\<forall>v\<in>set vs. 1 \<le> v \<and> v \<le> 9"
  shows "try_values rec s r c vs \<noteq> None"
  using assms(7)
proof (induction vs)
  case Nil
  then show ?case by simp
next
  case (Cons v vs)
  let ?s1 = "assign s r c v"
  have shaped: "well_shaped (grid_of ?s1)"
    using assms(3) by (rule well_shaped_assign)
  have undo: "assign ?s1 r c 0 = s"
    using assms(3,4,6) by (rule undo_assign)
  have "v \<noteq> 0"
    using Cons.prems by simp
  then have "length (empty_cells (grid_of ?s1)) < length (empty_cells (grid_of s))"
    using assms(3-6) by (simp add: empty_cells_fill)
  then obtain res1 where res1: "rec ?s1 = Some res1"
    using ret [OF shaped] by blast
  have "sound_run ?s1 res1"
    using rec [OF shaped res1] .
  then obtain ok s2 where r1: "res1 = Inr (ok, s2)" "ok \<or> s2 = ?s1"
    by (auto simp: sound_run_def split: sum.splits if_splits)
  show ?case
  proof (cases ok)
    case True
    then show ?thesis
      using assms(3-5) res1 r1 by (simp add: set_value_in)
  next
    case False
    then have "try_values rec s r c (v # vs) = try_values rec s r c vs"
      using assms(3-5) res1 r1 shaped undo by (simp add: set_value_in)
    then show ?thesis
      using Cons by simp
  qed
qed

lemma solve_returns:
  "well_shaped (grid_of s) \<Longrightarrow> length (empty_cells (grid_of s)) < n \<Longrightarrow> solve n s \<noteq> None"
proof (induction n arbitrary: s)
  case 0
  then show ?case by simp
next
  case (Suc n)
  show ?case
  proof (cases "is_finished (grid_of s)")
    case True
    then show ?thesis by simp
  next
    case False
    show ?thesis
    proof (cases "empty_cells (grid_of s)")
      case Nil
      with False show ?thesis
        by (simp add: scan_cells [OF Suc.prems(1)])
    next
      case (Cons p ps)
      have ret: "\<And>s1. well_shaped (grid_of s1) \<Longrightarrow>
          length (empty_cells (grid_of s1)) < length (empty_cells (grid_of s)) \<Longrightarrow>
          solve n s1 \<noteq> None"
        using Suc.IH Suc.prems(2) by simp
      have rec: "\<And>s1 res. well_shaped (grid_of s1) \<Longrightarrow> solve n s1 = Some res \<Longrightarrow>
          sound_run s1 res"
        by (rule solve_sound)
      have "try_values (solve n) s (fst p) (snd p)
          (filter (\<lambda>v. is_valid (grid_of (assign s (fst p) (snd p) v))) [1..9]) \<noteq> None"
        by (rule try_values_returns [OF ret rec Suc.prems(1) first_empty_cell [OF Cons]
              candidates_are_digits])
      with False Cons show ?thesis
        by (simp add: scan_cells [OF Suc.prems(1)])
    qed
  qed
qed

lemma solve_outcome:
  assumes "well_shaped (grid_of s)" and "length (empty_cells (grid_of s)) < n"
  shows "\<exists>ok s'. solve n s = Some (Inr (ok, s')) \<and> well_shaped (grid_of s') \<and>
           (if ok then completion (grid_of s) (grid_of s') else s' = s)"
proof -
  obtain res where res: "solve n s = Some res"
    using solve_returns [OF assms] by blast
  then have sound: "sound_run s res"
    using assms(1) by (simp add: solve_sound)
  show ?thesis
  proof (cases res)
    case (Inl e)
    with sound show ?thesis
      by (simp add: sound_run_def)
  next
    case (Inr pair)
    obtain ok s' where pair: "pair = (ok, s')"
      by (cases pair)
    from sound have "well_shaped (grid_of s') \<and>
        (if ok then completion (grid_of s) (grid_of s') else s' = s)"
      by (simp add: sound_run_def Inr pair)
    moreover have "solve n s = Some (Inr (ok, s'))"
      by (simp add: res Inr pair)
    ultimately show ?thesis
      by blast
  qed
qed

subsection \<open>A deeper run returns the same\<close>

text \<open>
  Whatever a run returns within some depth, it returns within every larger depth: the
  depth only bounds the recursion, it does not steer it.
\<close>

lemma try_values_mono:
  assumes deeper: "\<And>b1 res1. rec b1 = Some res1 \<Longrightarrow> rec' b1 = Some res1"
    and "try_values rec b r c vs = Some res"
  shows "try_values rec' b r c vs = Some res"
  using assms(2)
proof (induction vs arbitrary: b)
  case Nil
  then show ?case by simp
next
  case (Cons v vs)
  show ?case
  proof (cases "set_value b (int r) (int c) v")
    case (Inl e)
    with Cons.prems show ?thesis by simp
  next
    case written: (Inr b1)
    show ?thesis
    proof (cases "rec b1")
      case None
      with Cons.prems written show ?thesis by simp
    next
      case (Some res1)
      then have same: "rec' b1 = Some res1"
        by (rule deeper)
      show ?thesis
      proof (cases res1)
        case (Inl e)
        with Cons.prems written Some same show ?thesis by auto
      next
        case (Inr pair)
        obtain ok b2 where pair: "pair = (ok, b2)"
          by (cases pair)
        show ?thesis
        proof (cases ok)
          case True
          with Cons.prems written Some same Inr pair show ?thesis by auto
        next
          case False
          show ?thesis
          proof (cases "set_value b2 (int r) (int c) 0")
            case (Inl e)
            with Cons.prems written Some same Inr pair False show ?thesis by auto
          next
            case reset: (Inr b3)
            have "try_values rec b3 r c vs = Some res"
              using Cons.prems written Some Inr pair False reset by simp
            then have "try_values rec' b3 r c vs = Some res"
              by (rule Cons.IH)
            then show ?thesis
              using written same Inr pair False reset by simp
          qed
        qed
      qed
    qed
  qed
qed

lemma scan_mono:
  assumes deeper: "\<And>b1 res1. rec b1 = Some res1 \<Longrightarrow> rec' b1 = Some res1"
    and "scan rec b cs = Some res"
  shows "scan rec' b cs = Some res"
  using assms(2)
proof (induction cs)
  case Nil
  then show ?case by simp
next
  case (Cons p cs)
  obtain r c where p: "p = (r, c)"
    by (cases p)
  show ?case
  proof (cases "get_value b (int r) (int c)")
    case (Inl e)
    with Cons.prems p show ?thesis by simp
  next
    case got: (Inr x)
    show ?thesis
    proof (cases "x = 0")
      case False
      with Cons got p show ?thesis by simp
    next
      case True
      show ?thesis
      proof (cases "valid_values b (int r) (int c)")
        case (Inl e)
        with Cons.prems got p True show ?thesis by simp
      next
        case (Inr pair)
        obtain vals b1 where pair: "pair = (vals, b1)"
          by (cases pair)
        have "try_values rec b1 r c vals = Some res"
          using Cons.prems got p True Inr pair by simp
        then have "try_values rec' b1 r c vals = Some res"
          using deeper by (rule try_values_mono [rotated])
        then show ?thesis
          using got p True Inr pair by simp
      qed
    qed
  qed
qed

lemma solve_deeper: "solve n b = Some res \<Longrightarrow> solve (n + k) b = Some res"
proof (induction n arbitrary: b res)
  case 0
  then show ?case by simp
next
  case (Suc n)
  show ?case
  proof (cases "is_finished (grid_of b)")
    case True
    with Suc.prems show ?thesis by simp
  next
    case False
    with Suc.prems have "scan (solve n) b cells = Some res"
      by simp
    then have "scan (solve (n + k)) b cells = Some res"
      using Suc.IH by (rule scan_mono [rotated])
    with False show ?thesis by simp
  qed
qed


subsection \<open>The claims about the solver\<close>

lemma run_with_flag:
  assumes "map_option (map_sum id fst) run = Some (Inr ok)"
  shows "\<exists>b'. run = Some (Inr (ok, b'))"
proof (cases run)
  case None
  with assms show ?thesis by simp
next
  case (Some res)
  show ?thesis
  proof (cases res)
    case (Inl e)
    with Some assms show ?thesis by simp
  next
    case (Inr pair)
    with Some assms show ?thesis by (cases pair) simp
  qed
qed


lemma run_with_outcome:
  assumes "outcome run = Some (Inr (ok, g))"
  shows "\<exists>s'. run = Some (Inr (ok, s')) \<and> grid_of s' = g"
proof (cases run)
  case None
  with assms show ?thesis by (simp add: outcome_def)
next
  case (Some res)
  show ?thesis
  proof (cases res)
    case (Inl e)
    with Some assms show ?thesis by (simp add: outcome_def)
  next
    case (Inr pair)
    with Some assms show ?thesis by (cases pair) (simp add: outcome_def)
  qed
qed

lemma literal_shaped: "well_shaped g \<Longrightarrow> well_shaped (grid_of (literal g))"
  by (simp add: grid_literal)

lemma dead_end_shaped: "well_shaped dead_end"
  by code_simp

lemma column_clash_shaped: "well_shaped column_clash"
  by code_simp

lemma nearly_solved_accepted: "Board_init (literal nearly_solved) = Inr (literal nearly_solved)"
proof -
  have "length nearly_solved = 9 \<and> list_all (\<lambda>row. length row = 9) nearly_solved \<and>
      list_all (\<lambda>v. 0 \<le> v \<and> v \<le> 9) (concat nearly_solved)"
    by code_simp
  then show ?thesis
    by (simp add: Board_init_def grid_literal)
qed

text \<open>
  C1: for a board that passes the checks of the constructor and is valid, a successful
  run of \<open>solve\<close> (at any depth allowed) leaves a finished board, and every cell that
  was non-zero at the start holds the same value in it.
\<close>

theorem solve_success_finished:
  assumes "Board_init g = Inr s" and "is_valid (grid_of s)"
    and "solve n s = Some (Inr (True, s'))"
  shows "is_finished (grid_of s') \<and>
         (\<forall>r<9. \<forall>c<9. grid_of s ! r ! c \<noteq> 0 \<longrightarrow> grid_of s' ! r ! c = grid_of s ! r ! c)"
proof -
  have "well_shaped (grid_of s)"
    using assms(1) by (simp add: Board_init_shaped)
  then have "sound_run s (Inr (True, s'))"
    using assms(3) by (rule solve_sound)
  then have "is_finished (grid_of s')" "keeps_clues (grid_of s) (grid_of s')"
    by (simp_all add: sound_run_def completion_def)
  then show ?thesis
    using keeps_clues_cells [of "grid_of s" "grid_of s'"] by blast
qed

theorem solve_success_finished_witness:
  "Board_init (literal nearly_solved) = Inr (literal nearly_solved) \<and>
   is_valid (grid_of (literal nearly_solved)) \<and>
   outcome (solve 4 (literal nearly_solved)) = Some (Inr (True, main_solved)) \<and>
   is_finished main_solved \<and> main_solved ! 4 ! 3 = nearly_solved ! 4 ! 3"
proof -
  have valid: "is_valid (grid_of (literal nearly_solved))"
    by code_simp
  have out: "outcome (solve 4 (literal nearly_solved)) = Some (Inr (True, main_solved))"
    by code_simp
  then obtain s' where
    run: "solve 4 (literal nearly_solved) = Some (Inr (True, s'))" and
    grid: "grid_of s' = main_solved"
    using run_with_outcome by blast
  have clue: "nearly_solved ! 4 ! 3 \<noteq> 0"
    by code_simp
  from solve_success_finished [OF nearly_solved_accepted valid run] clue
  have "is_finished main_solved" "main_solved ! 4 ! 3 = nearly_solved ! 4 ! 3"
    by (simp_all add: grid grid_literal)
  with nearly_solved_accepted valid out show ?thesis
    by simp
qed

text \<open>
  C5: when \<open>solve\<close> returns \<^verbatim>\<open>None\<close> on a 9x9 board, the board is the one it was
  given: every candidate written was reset to 0, at every level of the recursion.
\<close>

theorem solve_failure_restores:
  assumes "well_shaped (grid_of s)" and "solve n s = Some (Inr (False, s'))"
  shows "s' = s"
proof -
  have "sound_run s (Inr (False, s'))"
    using assms by (rule solve_sound)
  then show ?thesis
    by (simp add: sound_run_def)
qed

theorem solve_failure_restores_witness:
  "well_shaped (grid_of (literal dead_end)) \<and>
   solve 3 (literal dead_end) = Some (Inr (False, literal dead_end))"
proof -
  have shaped: "well_shaped (grid_of (literal dead_end))"
    using dead_end_shaped by (rule literal_shaped)
  have flag: "map_option (map_sum id fst) (solve 3 (literal dead_end)) = Some (Inr False)"
    by code_simp
  from run_with_flag [OF flag]
  obtain s' where run: "solve 3 (literal dead_end) = Some (Inr (False, s'))" ..
  have "s' = literal dead_end"
    by (rule solve_failure_restores [OF shaped run])
  with run shaped show ?thesis
    by simp
qed

text \<open>
  The puzzle \<open>dead_end\<close> is valid and has no completion: the last cell of its first row
  would have to hold 1 or 9, and both stand in the last column already.
\<close>

lemma dead_end_no_completion: "\<not> completion dead_end g"
proof
  assume g: "completion dead_end g"
  then have shaped: "well_shaped g" and valid: "is_valid g"
    by (simp_all add: completion_def is_finished_def)
  have kept: "cell g q = cell dead_end q" if "on_board q \<and> cell dead_end q \<noteq> 0" for q
    using g that unfolding completion_def keeps_clues_iff by blast
  have clues: "cell dead_end (0, 1) = 2" "cell dead_end (0, 2) = 3" "cell dead_end (0, 3) = 4"
    "cell dead_end (0, 4) = 5" "cell dead_end (0, 5) = 6" "cell dead_end (0, 6) = 7"
    "cell dead_end (0, 7) = 8" "cell dead_end (4, 8) = 9" "cell dead_end (5, 8) = 1"
    "cell dead_end (0, 8) = 0"
    by code_simp+
  have given: "on_board (0, 1) \<and> cell dead_end (0, 1) \<noteq> 0"
    "on_board (0, 2) \<and> cell dead_end (0, 2) \<noteq> 0"
    "on_board (0, 3) \<and> cell dead_end (0, 3) \<noteq> 0"
    "on_board (0, 4) \<and> cell dead_end (0, 4) \<noteq> 0"
    "on_board (0, 5) \<and> cell dead_end (0, 5) \<noteq> 0"
    "on_board (0, 6) \<and> cell dead_end (0, 6) \<noteq> 0"
    "on_board (0, 7) \<and> cell dead_end (0, 7) \<noteq> 0"
    "on_board (4, 8) \<and> cell dead_end (4, 8) \<noteq> 0"
    "on_board (5, 8) \<and> cell dead_end (5, 8) \<noteq> 0"
    by code_simp+
  have there: "cell g (0, 1) = 2" "cell g (0, 2) = 3" "cell g (0, 3) = 4"
    "cell g (0, 4) = 5" "cell g (0, 5) = 6" "cell g (0, 6) = 7"
    "cell g (0, 7) = 8" "cell g (4, 8) = 9" "cell g (5, 8) = 1"
    using kept [OF given(1)] kept [OF given(2)] kept [OF given(3)] kept [OF given(4)]
      kept [OF given(5)] kept [OF given(6)] kept [OF given(7)] kept [OF given(8)]
      kept [OF given(9)]
    by (simp_all only: clues)
  have digit: "1 \<le> cell g (0, 8) \<and> cell g (0, 8) \<le> 9"
    using g clues(10) unfolding completion_def fills_digits_iff
    by (simp add: on_board_def)
  then have "cell g (0, 8) \<noteq> 0"
    by simp
  then have nonzero: "cell g (0, 8) \<noteq> 0"
    by simp
  have corner: "on_board (0, 8)"
    by (simp add: on_board_def)
  have cells: "\<forall>p q. on_board p \<and> on_board q \<and> p \<noteq> q \<and> same_group p q \<and> cell g p \<noteq> 0
      \<longrightarrow> cell g p \<noteq> cell g q"
    using valid by (simp only: is_valid_iff_cells [OF shaped])
  have apart: "cell g (0, 8) \<noteq> cell g q"
    if "on_board q \<and> (0, 8) \<noteq> q \<and> same_group (0, 8) q" for q
    using cells corner nonzero that by blast
  have near: "on_board (0, 1) \<and> ((0, 8) :: nat \<times> nat) \<noteq> (0, 1) \<and> same_group (0, 8) (0, 1)"
    "on_board (0, 2) \<and> ((0, 8) :: nat \<times> nat) \<noteq> (0, 2) \<and> same_group (0, 8) (0, 2)"
    "on_board (0, 3) \<and> ((0, 8) :: nat \<times> nat) \<noteq> (0, 3) \<and> same_group (0, 8) (0, 3)"
    "on_board (0, 4) \<and> ((0, 8) :: nat \<times> nat) \<noteq> (0, 4) \<and> same_group (0, 8) (0, 4)"
    "on_board (0, 5) \<and> ((0, 8) :: nat \<times> nat) \<noteq> (0, 5) \<and> same_group (0, 8) (0, 5)"
    "on_board (0, 6) \<and> ((0, 8) :: nat \<times> nat) \<noteq> (0, 6) \<and> same_group (0, 8) (0, 6)"
    "on_board (0, 7) \<and> ((0, 8) :: nat \<times> nat) \<noteq> (0, 7) \<and> same_group (0, 8) (0, 7)"
    "on_board (4, 8) \<and> ((0, 8) :: nat \<times> nat) \<noteq> (4, 8) \<and> same_group (0, 8) (4, 8)"
    "on_board (5, 8) \<and> ((0, 8) :: nat \<times> nat) \<noteq> (5, 8) \<and> same_group (0, 8) (5, 8)"
    by (simp_all add: on_board_def same_group_def)
  note others = apart [OF near(1), unfolded there] apart [OF near(2), unfolded there]
    apart [OF near(3), unfolded there] apart [OF near(4), unfolded there]
    apart [OF near(5), unfolded there] apart [OF near(6), unfolded there]
    apart [OF near(7), unfolded there] apart [OF near(8), unfolded there]
    apart [OF near(9), unfolded there]
  from digit others show False
    by arith
qed

text \<open>
  C6: on a 9x9 board whose puzzle has no completion (no finished grid keeps the clues and
  fills the empty cells with digits of 1..9), \<open>solve\<close> returns \<^verbatim>\<open>None\<close> within the
  depth 82, with no exception and the board unchanged. A board with two equal clues in
  one column is one such board; a valid board whose search runs into a dead end is
  another.
\<close>

theorem solve_reports_contradiction:
  assumes "well_shaped (grid_of s)" and "\<forall>g. \<not> completion (grid_of s) g"
  shows "solve 82 s = Some (Inr (False, s))"
proof -
  have "length (empty_cells (grid_of s)) < 82"
    using empty_cells_bound [of "grid_of s"] by simp
  then obtain ok s' where out: "solve 82 s = Some (Inr (ok, s'))"
    "if ok then completion (grid_of s) (grid_of s') else s' = s"
    using solve_outcome [OF assms(1)] by blast
  have "\<not> ok"
  proof
    assume ok
    then have "completion (grid_of s) (grid_of s')"
      using out(2) by simp
    then show False
      using assms(2) by blast
  qed
  then show ?thesis
    using out by simp
qed

theorem solve_reports_contradiction_witness:
  "\<not> is_valid column_clash \<and>
   solve 82 (literal column_clash) = Some (Inr (False, literal column_clash)) \<and>
   is_valid dead_end \<and>
   solve 82 (literal dead_end) = Some (Inr (False, literal dead_end))"
proof -
  have invalid: "\<not> is_valid column_clash"
    by code_simp
  have valid: "is_valid dead_end"
    by code_simp
  have "\<not> completion column_clash g" for g
    using invalid invalid_stays_invalid [OF column_clash_shaped, of g]
    by (auto simp: completion_def is_finished_def)
  then have "\<forall>g. \<not> completion (grid_of (literal column_clash)) g"
    by (simp add: grid_literal)
  then have clash: "solve 82 (literal column_clash) = Some (Inr (False, literal column_clash))"
    by (rule solve_reports_contradiction [OF literal_shaped [OF column_clash_shaped]])
  have "\<forall>g. \<not> completion (grid_of (literal dead_end)) g"
    by (simp add: grid_literal dead_end_no_completion)
  then have "solve 82 (literal dead_end) = Some (Inr (False, literal dead_end))"
    by (rule solve_reports_contradiction [OF literal_shaped [OF dead_end_shaped]])
  with clash invalid valid show ?thesis
    by simp
qed

text \<open>
  C7: on a 9x9 board \<open>solve\<close> terminates. A board has at most 81 empty cells, a depth
  above the number of empty cells is enough for the run to return (so the depth 82
  always is), and each level tries at most 9 candidates.
\<close>

theorem solve_terminates:
  assumes "well_shaped (grid_of s)"
  shows "length (empty_cells (grid_of s)) \<le> 81 \<and>
         (\<exists>ok s'. solve 82 s = Some (Inr (ok, s'))) \<and>
         (\<forall>n. length (empty_cells (grid_of s)) < n \<longrightarrow>
              (\<exists>ok s'. solve n s = Some (Inr (ok, s')))) \<and>
         (\<forall>r<9. \<forall>c<9. \<exists>vals. valid_values s (int r) (int c) = Inr (vals, s) \<and>
                                  length vals \<le> 9)"
proof -
  have bound: "length (empty_cells (grid_of s)) \<le> 81"
    by (rule empty_cells_bound)
  have deep: "\<exists>ok s'. solve n s = Some (Inr (ok, s'))"
    if "length (empty_cells (grid_of s)) < n" for n
    using solve_outcome [OF assms that] by blast
  have "length (empty_cells (grid_of s)) < 82"
    using bound by simp
  then have top: "\<exists>ok s'. solve 82 s = Some (Inr (ok, s'))"
    by (rule deep)
  have "length (filter P [1..9]) \<le> 9" for P :: "int \<Rightarrow> bool"
    using length_filter_le [of P "[1..9]"] by simp
  then have few: "\<forall>r<9. \<forall>c<9. \<exists>vals. valid_values s (int r) (int c) = Inr (vals, s) \<and>
      length vals \<le> 9"
    using assms by (simp add: valid_values_in)
  show ?thesis
    using bound top deep few by blast
qed

theorem solve_terminates_witness:
  "well_shaped (grid_of (literal dead_end)) \<and> length (empty_cells dead_end) = 72 \<and>
   (\<exists>ok s'. solve 82 (literal dead_end) = Some (Inr (ok, s'))) \<and>
   (\<exists>ok s'. solve 73 (literal dead_end) = Some (Inr (ok, s')))"
proof -
  have shaped: "well_shaped (grid_of (literal dead_end))"
    using dead_end_shaped by (rule literal_shaped)
  have count: "length (empty_cells dead_end) = 72"
    by code_simp
  from solve_terminates [OF shaped] count
  have "\<exists>ok s'. solve 82 (literal dead_end) = Some (Inr (ok, s'))"
    "\<exists>ok s'. solve 73 (literal dead_end) = Some (Inr (ok, s'))"
    by (simp_all add: grid_literal)
  with count shaped show ?thesis
    by simp
qed


section \<open>The queries read and do not write\<close>

text \<open>
  A loop over reads that leave the state alone collects their results and leaves the
  state alone.
\<close>

lemma each_reads:
  assumes "\<And>x. x \<in> set xs \<Longrightarrow> f x s = (g x, s)"
  shows "each f xs s = (map g xs, s)"
  using assms by (induction xs) simp_all

lemma all_of_reads:
  assumes "\<And>x. x \<in> set xs \<Longrightarrow> f x s = (p x, s)"
  shows "all_of f xs s = (list_all p xs, s)"
  using assms by (induction xs) simp_all

lemma read_cell_reads: "read_cell r c s = (heap s (row_refs s ! r) ! c, s)"
  by (simp add: read_cell_def read_rows_def read_list_def)

lemma is_valid_rows_call_reads: "is_valid_rows_call s = (is_valid_rows (grid_of s), s)"
proof -
  have "all_of is_valid_values_call (row_refs s) s =
      (list_all (\<lambda>a. is_valid_values (heap s a)) (row_refs s), s)"
    by (rule all_of_reads) (simp add: is_valid_values_call_def read_list_def)
  then show ?thesis
    by (simp add: is_valid_rows_call_def read_rows_def is_valid_rows_def grid_of_def
        list_all_iff)
qed

lemma get_columns_call_reads: "get_columns_call s = (get_columns (grid_of s), s)"
proof -
  have column: "(case read_rows s of (refs, s1) \<Rightarrow>
        each (\<lambda>a s. case read_list a s of (row, s2) \<Rightarrow> (row ! i, s2)) refs s1) =
      (map (\<lambda>a. heap s a ! i) (row_refs s), s)" for i
  proof -
    have "each (\<lambda>a s. case read_list a s of (row, s2) \<Rightarrow> (row ! i, s2)) (row_refs s) s =
        (map (\<lambda>a. heap s a ! i) (row_refs s), s)"
      by (rule each_reads) (simp add: read_list_def)
    then show ?thesis
      by (simp add: read_rows_def)
  qed
  have "get_columns_call s = (map (\<lambda>i. map (\<lambda>a. heap s a ! i) (row_refs s)) [0..<9], s)"
    unfolding get_columns_call_def by (rule each_reads) (rule column)
  then show ?thesis
    by (simp add: get_columns_def grid_of_def comp_def)
qed

lemma is_valid_columns_call_reads:
  "is_valid_columns_call s = (is_valid_columns (grid_of s), s)"
  by (simp add: is_valid_columns_call_def get_columns_call_reads is_valid_columns_def)

lemma get_squares_call_reads:
  assumes "well_shaped (grid_of s)"
  shows "get_squares_call s = (get_squares (grid_of s), s)"
proof -
  have len: "length (row_refs s) = 9"
    using assms by (rule refs_length)
  have row: "grid_of s ! r = heap s (row_refs s ! r)" if "r < 9" for r
    using len that by (simp add: grid_of_def)
  have square: "each (\<lambda>(k, l). read_cell (i + k) (j + l))
        [(k, l). k \<leftarrow> [0..<3], l \<leftarrow> [0..<3]] s =
      ([grid_of s ! (i + k) ! (j + l). k \<leftarrow> [0..<3], l \<leftarrow> [0..<3]], s)"
    if "i \<in> {0, 3, 6}" for i j
    using that by (auto simp: upt_3 read_cell_reads row)
  have "each (\<lambda>(i, j). each (\<lambda>(k, l). read_cell (i + k) (j + l))
          [(k, l). k \<leftarrow> [0..<3], l \<leftarrow> [0..<3]])
        [(i, j). i \<leftarrow> [0, 3, 6], j \<leftarrow> [0, 3, 6]] s =
      (map (\<lambda>(i, j). [grid_of s ! (i + k) ! (j + l). k \<leftarrow> [0..<3], l \<leftarrow> [0..<3]])
        [(i, j). i \<leftarrow> [0, 3, 6], j \<leftarrow> [0, 3, 6]], s)"
  proof (rule each_reads)
    fix x :: "nat \<times> nat"
    assume x: "x \<in> set [(i, j). i \<leftarrow> [0, 3, 6], j \<leftarrow> [0, 3, 6]]"
    obtain i j where ij: "x = (i, j)"
      by (cases x)
    have "i \<in> {0, 3, 6}"
      using x unfolding ij by auto
    then show "(case x of (i, j) \<Rightarrow> each (\<lambda>(k, l). read_cell (i + k) (j + l))
          [(k, l). k \<leftarrow> [0..<3], l \<leftarrow> [0..<3]]) s =
        (case x of (i, j) \<Rightarrow>
          [grid_of s ! (i + k) ! (j + l). k \<leftarrow> [0..<3], l \<leftarrow> [0..<3]], s)"
      unfolding ij by (simp only: prod.case square)
  qed
  moreover have "map (\<lambda>(i, j). [grid_of s ! (i + k) ! (j + l). k \<leftarrow> [0..<3], l \<leftarrow> [0..<3]])
        [(i, j). i \<leftarrow> [0, 3, 6], j \<leftarrow> [0, 3, 6]] = get_squares (grid_of s)"
    by (simp add: get_squares_def)
  ultimately show ?thesis
    by (simp only: get_squares_call_def)
qed

lemma is_valid_squares_call_reads:
  assumes "well_shaped (grid_of s)"
  shows "is_valid_squares_call s = (is_valid_squares (grid_of s), s)"
  using assms
  by (simp add: is_valid_squares_call_def get_squares_call_reads is_valid_squares_def)

lemma is_valid_call_reads:
  assumes "well_shaped (grid_of s)"
  shows "is_valid_call s = (is_valid (grid_of s), s)"
  using assms
  by (simp add: is_valid_call_def is_valid_rows_call_reads is_valid_columns_call_reads
      is_valid_squares_call_reads is_valid_def)

lemma is_finished_call_reads:
  assumes "well_shaped (grid_of s)"
  shows "is_finished_call s = (is_finished (grid_of s), s)"
proof -
  have "all_of (\<lambda>a s. case read_list a s of (row, s2) \<Rightarrow> (list_all (\<lambda>v. v \<noteq> 0) row, s2))
        (row_refs s) s =
      (list_all (\<lambda>a. list_all (\<lambda>v. v \<noteq> 0) (heap s a)) (row_refs s), s)"
    by (rule all_of_reads) (simp add: read_list_def)
  moreover have "list_all (\<lambda>a. list_all (\<lambda>v. v \<noteq> 0) (heap s a)) (row_refs s) =
      list_all (\<lambda>v. v \<noteq> 0) (concat (grid_of s))"
    by (auto simp: list_all_iff grid_of_def)
  ultimately show ?thesis
    using assms
    by (simp add: is_finished_call_def read_rows_def is_valid_call_reads is_finished_def)
qed

lemma str_Board_call_reads: "str_Board_call s = (str_Board (grid_of s), s)"
proof -
  have "each read_list (row_refs s) s = (map (heap s) (row_refs s), s)"
    by (rule each_reads) (simp add: read_list_def)
  then show ?thesis
    by (simp add: str_Board_call_def read_rows_def grid_of_def)
qed


section \<open>Rendering\<close>

lemma upt_9: "[0..<9] = [0, 1, 2, 3, 4, 5, 6, 7, 8]"
  by (simp add: upt_rec)

lemma list_nine:
  assumes "length xs = 9"
  shows "xs = [xs ! 0, xs ! 1, xs ! 2, xs ! 3, xs ! 4, xs ! 5, xs ! 6, xs ! 7, xs ! 8]"
proof -
  have "map (\<lambda>i. xs ! i) [0..<9] = xs"
    using map_nth [of xs] assms by simp
  then have "[xs ! 0, xs ! 1, xs ! 2, xs ! 3, xs ! 4, xs ! 5, xs ! 6, xs ! 7, xs ! 8] = xs"
    by (simp add: upt_9)
  then show ?thesis
    by (rule sym)
qed

lemma format_digit:
  assumes "0 \<le> v" and "v \<le> 9"
  shows "(if v \<noteq> 0 then str_int v else ''.'') = [cell_char v]"
proof -
  have "nat v < 10"
    using assms by simp
  then have "str_nat (nat v) = [''0123456789'' ! nat v]"
    by (subst str_nat.simps) simp
  then show ?thesis
    using assms by (simp add: str_int_def cell_char_def)
qed

lemma formatted_row_explicit:
  assumes "\<forall>v\<in>set [a0, a1, a2, a3, a4, a5, a6, a7, a8]. 0 \<le> v \<and> v \<le> 9"
  shows "formatted_row [a0, a1, a2, a3, a4, a5, a6, a7, a8] =
     [cell_char a0, CHR '' '', cell_char a1, CHR '' '', cell_char a2,
      CHR '' '', CHR ''|'', CHR '' '',
      cell_char a3, CHR '' '', cell_char a4, CHR '' '', cell_char a5,
      CHR '' '', CHR ''|'', CHR '' '',
      cell_char a6, CHR '' '', cell_char a7, CHR '' '', cell_char a8]"
proof -
  have d: "(if v \<noteq> 0 then str_int v else ''.'') = [cell_char v]"
    if "v \<in> set [a0, a1, a2, a3, a4, a5, a6, a7, a8]" for v
    using assms that by (intro format_digit) auto
  show ?thesis
    unfolding formatted_row_def
    by (simp add: d)
qed

lemma formatted_row_line:
  assumes "well_shaped b" and "list_all (\<lambda>v. 0 \<le> v \<and> v \<le> 9) (concat b)" and "r < 9"
  shows "formatted_row (b ! r) = grid_line b r"
proof -
  have len: "length (b ! r) = 9"
    using assms(1,3) by (rule well_shaped_row)
  have "b ! r \<in> set b"
    using assms(1,3) by (simp add: well_shaped_length)
  then have range: "\<forall>v\<in>set (b ! r). 0 \<le> v \<and> v \<le> 9"
    using assms(2) by (auto simp: list_all_iff)
  have expl: "b ! r = [b ! r ! 0, b ! r ! 1, b ! r ! 2, b ! r ! 3, b ! r ! 4, b ! r ! 5,
      b ! r ! 6, b ! r ! 7, b ! r ! 8]"
    by (rule list_nine [OF len])
  have "\<forall>v\<in>set [b ! r ! 0, b ! r ! 1, b ! r ! 2, b ! r ! 3, b ! r ! 4, b ! r ! 5,
      b ! r ! 6, b ! r ! 7, b ! r ! 8]. 0 \<le> v \<and> v \<le> 9"
    using range by (simp only: expl [symmetric])
  then have "formatted_row [b ! r ! 0, b ! r ! 1, b ! r ! 2, b ! r ! 3, b ! r ! 4, b ! r ! 5,
      b ! r ! 6, b ! r ! 7, b ! r ! 8] = grid_line b r"
    unfolding grid_line_def by (rule formatted_row_explicit)
  moreover have "formatted_row (b ! r) =
      formatted_row [b ! r ! 0, b ! r ! 1, b ! r ! 2, b ! r ! 3, b ! r ! 4, b ! r ! 5,
        b ! r ! 6, b ! r ! 7, b ! r ! 8]"
    using expl by (rule arg_cong)
  ultimately show ?thesis
    by (rule trans [rotated])
qed

lemma replicate_rule_line: "replicate 21 CHR ''-'' = rule_line"
  unfolding rule_line_def by code_simp

lemma str_rows_nine:
  "str_rows 0 [r0, r1, r2, r3, r4, r5, r6, r7, r8] =
     [formatted_row r0, formatted_row r1, formatted_row r2, rule_line,
      formatted_row r3, formatted_row r4, formatted_row r5, rule_line,
      formatted_row r6, formatted_row r7, formatted_row r8]"
proof -
  have tail: "str_rows 3 [r3, r4, r5, r6, r7, r8] =
     [rule_line, formatted_row r3, formatted_row r4, formatted_row r5, rule_line,
      formatted_row r6, formatted_row r7, formatted_row r8]"
    by (simp add: replicate_rule_line)
  have "str_rows 0 [r0, r1, r2, r3, r4, r5, r6, r7, r8] =
      [formatted_row r0, formatted_row r1, formatted_row r2]
      @ str_rows (Suc (Suc (Suc 0))) [r3, r4, r5, r6, r7, r8]"
    by (simp add: mod_Suc del: str_rows.simps(2) add: str_rows.simps(2) [of _ r0]
        str_rows.simps(2) [of _ r1] str_rows.simps(2) [of _ r2])
  then show ?thesis
    by (simp only: numeral_3_eq_3 [symmetric] tail append.simps)
qed


text \<open>
  C9: for a board that passes the checks of the constructor, the rendering is the nine
  grid lines joined by newlines, with a rule of 21 dashes before the 4th and before the
  7th grid line and nothing else; every grid line has 21 characters; and the call leaves
  the board as it was.
\<close>

theorem str_Board_layout:
  assumes "Board_init g = Inr s"
  shows "str_Board_call s =
          (           grid_line (grid_of s) 0 @ newline @ grid_line (grid_of s) 1 @ newline @
           grid_line (grid_of s) 2 @ newline @
           rule_line @ newline @
           grid_line (grid_of s) 3 @ newline @ grid_line (grid_of s) 4 @ newline @
           grid_line (grid_of s) 5 @ newline @
           rule_line @ newline @
           grid_line (grid_of s) 6 @ newline @ grid_line (grid_of s) 7 @ newline @
           grid_line (grid_of s) 8, s) \<and>
         length rule_line = 21 \<and>
         list_all (\<lambda>r. length (grid_line (grid_of s) r) = 21) [0..<9]"
proof -
  define b where "b = grid_of s"
  have shaped: "well_shaped b"
    using assms unfolding b_def by (simp add: Board_init_shaped)
  have range: "list_all (\<lambda>v. 0 \<le> v \<and> v \<le> 9) (concat b)"
    using assms unfolding b_def by (auto simp: Board_init_def split: if_splits)
  have line: "formatted_row (b ! r) = grid_line b r" if "r < 9" for r
    using shaped range that by (rule formatted_row_line)
  have "length b = 9"
    using shaped by (rule well_shaped_length)
  then have rows: "b = [b ! 0, b ! 1, b ! 2, b ! 3, b ! 4, b ! 5, b ! 6, b ! 7, b ! 8]"
    by (rule list_nine)
  have "str_rows 0 b =
      str_rows 0 [b ! 0, b ! 1, b ! 2, b ! 3, b ! 4, b ! 5, b ! 6, b ! 7, b ! 8]"
    using rows by (rule arg_cong)
  also have "\<dots> =
     [formatted_row (b ! 0), formatted_row (b ! 1), formatted_row (b ! 2), rule_line,
      formatted_row (b ! 3), formatted_row (b ! 4), formatted_row (b ! 5), rule_line,
      formatted_row (b ! 6), formatted_row (b ! 7), formatted_row (b ! 8)]"
    by (rule str_rows_nine)
  also have "\<dots> =
     [grid_line b 0, grid_line b 1, grid_line b 2, rule_line,
      grid_line b 3, grid_line b 4, grid_line b 5, rule_line,
      grid_line b 6, grid_line b 7, grid_line b 8]"
    by (simp add: line)
  finally have "str_rows 0 b =
     [grid_line b 0, grid_line b 1, grid_line b 2, rule_line,
      grid_line b 3, grid_line b 4, grid_line b 5, rule_line,
      grid_line b 6, grid_line b 7, grid_line b 8]" .
  then have "str_Board b =
           grid_line b 0 @ newline @ grid_line b 1 @ newline @ grid_line b 2 @ newline @
           rule_line @ newline @
           grid_line b 3 @ newline @ grid_line b 4 @ newline @ grid_line b 5 @ newline @
           rule_line @ newline @
           grid_line b 6 @ newline @ grid_line b 7 @ newline @ grid_line b 8"
    by (simp add: str_Board_def newline_def)
  moreover have "length rule_line = 21"
    by (simp add: rule_line_def)
  moreover have "list_all (\<lambda>r. length (grid_line b r) = 21) [0..<9]"
    by (simp add: list_all_iff grid_line_def)
  ultimately show ?thesis
    unfolding b_def by (simp add: str_Board_call_reads)
qed

lemma main_board_accepted: "Board_init (literal main_board) = Inr (literal main_board)"
proof -
  have "length main_board = 9 \<and> list_all (\<lambda>row. length row = 9) main_board \<and>
      list_all (\<lambda>v. 0 \<le> v \<and> v \<le> 9) (concat main_board)"
    by code_simp
  then show ?thesis
    by (simp add: Board_init_def grid_literal)
qed

theorem str_Board_layout_witness:
  "Board_init (literal main_board) = Inr (literal main_board) \<and>
   str_Board_call (literal main_board) =
    (''. . 7 | . 8 . | 4 . 2'' @ newline @
     ''. . 9 | . 5 . | . . .'' @ newline @
     ''. 8 . | . 7 4 | 5 . 9'' @ newline @
     ''---------------------'' @ newline @
     ''. . . | . . . | . 6 .'' @ newline @
     ''. . 1 | . . 5 | . 2 .'' @ newline @
     ''4 9 . | 8 . 7 | . 5 .'' @ newline @
     ''---------------------'' @ newline @
     ''7 3 4 | 5 1 6 | 2 9 8'' @ newline @
     ''. . 6 | . 2 . | . 4 .'' @ newline @
     ''. . . | . . . | . . .'', literal main_board)"
proof -
  have lines:
    "grid_line main_board 0 = ''. . 7 | . 8 . | 4 . 2''"
    "grid_line main_board 1 = ''. . 9 | . 5 . | . . .''"
    "grid_line main_board 2 = ''. 8 . | . 7 4 | 5 . 9''"
    "grid_line main_board 3 = ''. . . | . . . | . 6 .''"
    "grid_line main_board 4 = ''. . 1 | . . 5 | . 2 .''"
    "grid_line main_board 5 = ''4 9 . | 8 . 7 | . 5 .''"
    "grid_line main_board 6 = ''7 3 4 | 5 1 6 | 2 9 8''"
    "grid_line main_board 7 = ''. . 6 | . 2 . | . 4 .''"
    "grid_line main_board 8 = ''. . . | . . . | . . .''"
    by code_simp+
  have "str_Board_call (literal main_board) =
     (grid_line (grid_of (literal main_board)) 0 @ newline @
      grid_line (grid_of (literal main_board)) 1 @ newline @
      grid_line (grid_of (literal main_board)) 2 @ newline @ rule_line @ newline @
      grid_line (grid_of (literal main_board)) 3 @ newline @
      grid_line (grid_of (literal main_board)) 4 @ newline @
      grid_line (grid_of (literal main_board)) 5 @ newline @ rule_line @ newline @
      grid_line (grid_of (literal main_board)) 6 @ newline @
      grid_line (grid_of (literal main_board)) 7 @ newline @
      grid_line (grid_of (literal main_board)) 8, literal main_board)"
    using str_Board_layout [OF main_board_accepted] by (rule conjunct1)
  then show ?thesis
    using main_board_accepted by (simp only: grid_literal lines rule_line_def)
qed

section \<open>Queries leave the board as it is\<close>

lemma run_query_reads:
  assumes "well_shaped (grid_of s)"
  shows "run_query q s = (answer q (grid_of s), s)"
  using assms by (cases q) (simp_all add: is_valid_call_reads is_finished_call_reads)

text \<open>
  C10: on a 9x9 board, a sequence of calls of \<open>is_valid\<close> and \<open>is_finished\<close>, in any
  order, ends with the object in the state it started in (no list of the board has been
  written, none replaced), and every call in it answers what the predicate is on the
  grid of that state.
\<close>

theorem queries_leave_board:
  assumes "well_shaped (grid_of s)"
  shows "run_queries qs s = (map (\<lambda>q. answer q (grid_of s)) qs, s)"
proof (induction qs)
  case Nil
  show ?case by simp
next
  case (Cons q qs)
  have "run_query q s = (answer q (grid_of s), s)"
    using assms by (rule run_query_reads)
  then show ?case
    using Cons.IH by (simp del: run_query.simps)
qed

theorem queries_leave_board_witness:
  "well_shaped (grid_of (literal main_board)) \<and>
   run_queries [Is_valid, Is_finished, Is_valid, Is_finished] (literal main_board) =
     ([True, False, True, False], literal main_board)"
proof -
  have "is_valid main_board" "\<not> is_finished main_board"
    by code_simp+
  then show ?thesis
    using queries_leave_board [OF main_object_shaped,
        of "[Is_valid, Is_finished, Is_valid, Is_finished]"]
      main_object_shaped
    by (simp add: grid_literal)
qed


end
